theory Spec2Isabelle
  imports Main "HOL-Library.Sublist"
begin

section \<open>Swarm Janitor: the session scanner, the archiver and the orchestrator\<close>

text \<open>
  A shallow embedding of \<^verbatim>\<open>scripts/swarm_janitor.py\<close> and \<^verbatim>\<open>scripts/cleanup.py\<close>.

  Conventions of the model.
  \<^item> A \<^verbatim>\<open>datetime\<close> is a naive local date and time, as the code has it, written as an
    \<open>int\<close>: its microseconds on the calendar (the resolution of Python's
    \<^verbatim>\<open>datetime\<close>); a \<^verbatim>\<open>timedelta\<close> is an \<open>int\<close> of microseconds, so a difference of
    two datetimes is a difference on the wall clock. The conversion of a time stamp of
    the epoch into a datetime belongs to the platform and its time zone: it is a
    function of the world, which may also raise.
  \<^item> Text is a \<open>string\<close> over the code points 0..255.
  \<^item> The sessions directory is an association list from file names to files, in the
    order in which the directory is enumerated; a path inside it is its file name.
  \<^item> Everything that may raise (\<^verbatim>\<open>stat\<close>, \<^verbatim>\<open>open\<close>, \<^verbatim>\<open>unlink\<close>, \<^verbatim>\<open>touch\<close>,
    \<^verbatim>\<open>mkdir\<close>, \<^verbatim>\<open>datetime.fromtimestamp\<close>) raises when the file is missing or when
    the corresponding predicate of the world says so; an exception is a value \<open>Inl e\<close>.
  \<^item> The clock is read as one instant \<open>now\<close> during a run; the cut-off date of the
    analyzer is fixed when the analyzer is constructed.
  \<^item> The log keeps the lines of the archiver and of the orchestrator; the banner, the
    counts and the warnings of the scanner are left out.
  \<^item> The sessions of the registry are JSON values of any shape. A JSON number is an
    integer or a float \<open>m * 2 ^ e\<close>; the literals \<^verbatim>\<open>NaN\<close> and \<^verbatim>\<open>Infinity\<close>, which are not
    JSON, are left out.
  \<^item> The archive store of the archiver lies outside the sessions directory.
\<close>

subsection \<open>Time\<close>

type_synonym datetime = int
type_synonym timedelta = int

definition timedelta_hours :: "int \<Rightarrow> timedelta" where
  "timedelta_hours h = h * 3600000000"

definition timedelta_days :: "int \<Rightarrow> timedelta" where
  "timedelta_days d = d * 86400000000"


subsection \<open>Text\<close>

text \<open>\<^verbatim>\<open>str.isspace\<close> on the code points below 256.\<close>

definition py_isspace :: "char \<Rightarrow> bool" where
  "py_isspace c =
     (let n = of_char c :: nat
      in (9 \<le> n \<and> n \<le> 13) \<or> (28 \<le> n \<and> n \<le> 32) \<or> n = 133 \<or> n = 160)"

text \<open>\<^verbatim>\<open>str.strip()\<close>: leading and trailing white space removed.\<close>

definition strip :: "string \<Rightarrow> string" where
  "strip s = rev (dropWhile py_isspace (rev (dropWhile py_isspace s)))"

text \<open>\<^verbatim>\<open>str.lower()\<close> on the code points below 256: the letters A..Z and the upper-case
  letters of Latin-1 (192..222 without the multiplication sign 215) move up by 32.\<close>

definition lower_char :: "char \<Rightarrow> char" where
  "lower_char c =
     (let n = of_char c :: nat
      in if (65 \<le> n \<and> n \<le> 90) \<or> (192 \<le> n \<and> n \<le> 222 \<and> n \<noteq> 215)
         then char_of (n + 32) else c)"

definition lower :: "string \<Rightarrow> string" where
  "lower s = map lower_char s"

text \<open>\<^verbatim>\<open>a in b\<close> on strings is \<^const>\<open>sublist\<close>, \<^verbatim>\<open>b.endswith(a)\<close> is \<^const>\<open>suffix\<close>.\<close>

text \<open>\<^verbatim>\<open>PurePath.stem\<close>: with \<open>i\<close> the index of the last dot of the name, the name up to
  \<open>i\<close> if \<open>0 < i < len(name) - 1\<close>, the whole name otherwise.\<close>

definition stem :: "string \<Rightarrow> string" where
  "stem name =
     (let ext = takeWhile (\<lambda>c. c \<noteq> CHR ''.'') (rev name)
      in if CHR ''.'' \<in> set name \<and> ext \<noteq> [] \<and> length ext + 1 < length name
         then take (length name - length ext - 1) name
         else name)"

subsection \<open>The world: files, registry, archive store, console, log\<close>

record file_node =
  content :: string    \<comment> \<open>the text read with \<^verbatim>\<open>errors='ignore'\<close>\<close>
  st_size :: nat
  st_mtime :: datetime \<comment> \<open>\<^verbatim>\<open>datetime.fromtimestamp(stat.st_mtime)\<close>\<close>
  st_ctime :: datetime

text \<open>What \<^verbatim>\<open>json.load\<close> returns: a number is an \<^verbatim>\<open>int\<close> or a \<^verbatim>\<open>float\<close> (\<open>FloatN m e\<close>
  is \<open>m * 2 ^ e\<close>), an object is the list of the items of its \<^verbatim>\<open>dict\<close>.\<close>

datatype number = IntN int | FloatN int int

datatype json =
    JNull
  | JBool bool
  | JNum number
  | JStr string
  | JArr "json list"
  | JObj "(string \<times> json) list"

text \<open>\<^verbatim>\<open>sessions.json\<close> as \<^verbatim>\<open>_is_process_active\<close> meets it: missing; such that \<^verbatim>\<open>open\<close>,
  \<^verbatim>\<open>json.load\<close>, \<^verbatim>\<open>data.get\<close> or \<^verbatim>\<open>.items()\<close> raises; or with the items of the
  \<^verbatim>\<open>dict\<close> under \<^verbatim>\<open>"sessions"\<close> (none when the key is missing), in their order.\<close>

datatype registry_file =
    Absent
  | Malformed
  | Parsed "(string \<times> json) list"

record archive_entry =
  ae_session_id :: string
  ae_archived_at :: datetime
  ae_original_path :: string
  ae_content_preview :: string

datatype reason = OlderThan int | NoActiveProcess

datatype fmt = ArchiveStamp | MarkerStamp

datatype log_event =
    LogFileNotFound string
  | LogEmptyTranscript string
  | LogArchived string string
  | LogArchiveError string
  | LogNothingToDo
  | LogOrphan string nat datetime "reason list"
  | LogDryRun
  | LogCancelled
  | LogNonInteractive
  | LogArchiveFailed string
  | LogDeleted string
  | LogProcessFailed string
  | LogSummary

record world =
  dir_exists :: bool
  entries :: "(string \<times> file_node) list"
  registry :: registry_file
  archives :: "string \<rightharpoonup> archive_entry"    \<comment> \<open>the archive store of the archiver\<close>
  archive_dir :: "string \<rightharpoonup> file_node"     \<comment> \<open>the archive directory of \<^verbatim>\<open>cleanup.py\<close>\<close>
  now :: datetime                \<comment> \<open>\<^verbatim>\<open>datetime.now()\<close>\<close>
  strftime :: "fmt \<Rightarrow> datetime \<Rightarrow> string"
  fromtimestamp :: "number \<Rightarrow> datetime option"
    \<comment> \<open>\<^verbatim>\<open>datetime.fromtimestamp(x / 1000)\<close> in the time zone of the process; \<open>None\<close> when the
       division or the conversion raises\<close>
  repr_text :: "json \<Rightarrow> string"  \<comment> \<open>\<^verbatim>\<open>str(v)\<close> for a float, a list or a \<^verbatim>\<open>dict\<close>\<close>
  stat_raises :: "string \<Rightarrow> bool"
  read_raises :: "string \<Rightarrow> bool"
  unlink_raises :: "string \<Rightarrow> bool"
  touch_raises :: "string \<Rightarrow> bool"
  mkdir_raises :: bool
  write_raises :: "string \<Rightarrow> bool"
  rename_raises :: "string \<Rightarrow> bool"
  force_env :: "string option"   \<comment> \<open>\<^verbatim>\<open>os.getenv("SWARM_JANITOR_FORCE")\<close>\<close>
  stdin :: "string list"         \<comment> \<open>the lines still to be read; \<open>[]\<close> is end of input\<close>
  log :: "log_event list"

datatype exn = OSError | ValueError | EOFError | AttributeError | TypeError

definition logging :: "log_event \<Rightarrow> world \<Rightarrow> world" where
  "logging e w = w\<lparr>log := log w @ [e]\<rparr>"

definition lookup_file :: "world \<Rightarrow> string \<Rightarrow> file_node option" where
  "lookup_file w n = map_of (entries w) n"

definition exists_file :: "world \<Rightarrow> string \<Rightarrow> bool" where
  "exists_file w n = (lookup_file w n \<noteq> None)"

definition stat :: "world \<Rightarrow> string \<Rightarrow> exn + file_node" where
  "stat w n =
     (if stat_raises w n then Inl OSError
      else case lookup_file w n of None \<Rightarrow> Inl OSError | Some f \<Rightarrow> Inr f)"

definition read_text :: "world \<Rightarrow> string \<Rightarrow> exn + string" where
  "read_text w n =
     (if read_raises w n then Inl OSError
      else case lookup_file w n of None \<Rightarrow> Inl OSError | Some f \<Rightarrow> Inr (content f))"

definition unlink :: "string \<Rightarrow> world \<Rightarrow> exn + world" where
  "unlink n w =
     (if unlink_raises w n \<or> \<not> exists_file w n then Inl OSError
      else Inr (w\<lparr>entries := filter (\<lambda>(m, f). m \<noteq> n) (entries w)\<rparr>))"

text \<open>\<^verbatim>\<open>Path.touch()\<close>: creates an empty file, or sets the modification time of an
  existing one.\<close>

definition touch :: "string \<Rightarrow> world \<Rightarrow> exn + world" where
  "touch n w =
     (if touch_raises w n then Inl OSError
      else if exists_file w n
      then Inr (w\<lparr>entries := map (\<lambda>(m, f). if m = n then (m, f\<lparr>st_mtime := now w\<rparr>) else (m, f))
                                  (entries w)\<rparr>)
      else Inr (w\<lparr>entries := entries w @
                  [(n, \<lparr>content = [], st_size = 0, st_mtime = now w, st_ctime = now w\<rparr>)]\<rparr>))"

subsection \<open>Python on JSON values\<close>

text \<open>\<^verbatim>\<open>d.get(key, default)\<close> on the items of a \<^verbatim>\<open>dict\<close>.\<close>

definition dict_get :: "(string \<times> json) list \<Rightarrow> string \<Rightarrow> json \<Rightarrow> json" where
  "dict_get items key dflt = (case map_of items key of None \<Rightarrow> dflt | Some v \<Rightarrow> v)"

text \<open>The decimal digits of a natural number and of an integer: \<^verbatim>\<open>str(n)\<close>.\<close>

fun str_nat :: "nat \<Rightarrow> string" where
  "str_nat n =
     (if n < 10 then [char_of (48 + n)] else str_nat (n div 10) @ [char_of (48 + n mod 10)])"

definition str_int :: "int \<Rightarrow> string" where
  "str_int i = (if i < 0 then CHR ''-'' # str_nat (nat (- i)) else str_nat (nat i))"

text \<open>\<^verbatim>\<open>str(v)\<close>: a string is itself, \<^verbatim>\<open>None\<close>, \<^verbatim>\<open>True\<close> and \<^verbatim>\<open>False\<close> are their names, an
  \<^verbatim>\<open>int\<close> its digits; the text of a float, a list or a \<^verbatim>\<open>dict\<close> comes from the world.\<close>

fun py_str :: "world \<Rightarrow> json \<Rightarrow> string" where
  "py_str w (JStr s) = s"
| "py_str w JNull = ''None''"
| "py_str w (JBool b) = (if b then ''True'' else ''False'')"
| "py_str w (JNum (IntN i)) = str_int i"
| "py_str w v = repr_text w v"

text \<open>The truth value of a JSON value in an \<^verbatim>\<open>if\<close>.\<close>

fun truthy_json :: "json \<Rightarrow> bool" where
  "truthy_json JNull = False"
| "truthy_json (JBool b) = b"
| "truthy_json (JNum (IntN i)) = (i \<noteq> 0)"
| "truthy_json (JNum (FloatN m e)) = (m \<noteq> 0)"
| "truthy_json (JStr s) = (s \<noteq> [])"
| "truthy_json (JArr vs) = (vs \<noteq> [])"
| "truthy_json (JObj items) = (items \<noteq> [])"

text \<open>The operand of \<^verbatim>\<open>v / 1000\<close>: a number, \<^verbatim>\<open>True\<close> as 1 and \<^verbatim>\<open>False\<close> as 0; on every
  other value the division raises \<^verbatim>\<open>TypeError\<close>.\<close>

fun number_of :: "json \<Rightarrow> number option" where
  "number_of (JNum x) = Some x"
| "number_of (JBool b) = Some (IntN (if b then 1 else 0))"
| "number_of v = None"

subsection \<open>SessionAnalyzer\<close>

record analyzer =
  retention_days :: int
  cutoff_date :: datetime

text \<open>\<^verbatim>\<open>SessionAnalyzer.__init__\<close>, at the time \<open>t\<close> of the construction.\<close>

definition SessionAnalyzer :: "int \<Rightarrow> datetime \<Rightarrow> analyzer" where
  "SessionAnalyzer days t = \<lparr>retention_days = days, cutoff_date = t - timedelta_days days\<rparr>"

record session_info =
  file_name :: string        \<comment> \<open>\<^verbatim>\<open>"file"\<close> and \<^verbatim>\<open>"path"\<close>\<close>
  size_bytes :: nat
  modified :: datetime
  session_id :: string
  is_orphaned :: bool
  reason :: "reason list"

text \<open>The loop of \<^verbatim>\<open>_is_process_active\<close> over the sessions of the registry. On a session
  that is not a \<^verbatim>\<open>dict\<close>, \<^verbatim>\<open>session.get\<close> raises, in the test of the match or, when the
  identifier occurs in the key, on the line after it. A session matches when the
  identifier occurs in its key or in the text of its \<^verbatim>\<open>sessionId\<close>; a matching session
  with a truthy \<^verbatim>\<open>updatedAt\<close> that converts to a datetime less than one hour before
  \<^verbatim>\<open>datetime.now()\<close> ends the loop with True.\<close>

fun active_loop :: "world \<Rightarrow> string \<Rightarrow> (string \<times> json) list \<Rightarrow> exn + bool" where
  "active_loop w sid [] = Inr False"
| "active_loop w sid ((key, JObj session) # rest) =
     (if sublist sid key \<or> sublist sid (py_str w (dict_get session ''sessionId'' (JStr [])))
      then
        (let updated_at = dict_get session ''updatedAt'' (JNum (IntN 0))
         in if truthy_json updated_at
            then (case number_of updated_at of
                    None \<Rightarrow> Inl TypeError
                  | Some x \<Rightarrow>
                      (case fromtimestamp w x of
                         None \<Rightarrow> Inl ValueError
                       | Some updated_dt \<Rightarrow>
                           if now w - updated_dt < timedelta_hours 1 then Inr True
                           else active_loop w sid rest))
            else active_loop w sid rest)
      else active_loop w sid rest)"
| "active_loop w sid ((key, session) # rest) = Inl AttributeError"

text \<open>\<^verbatim>\<open>_is_process_active\<close>: any exception is caught and answers False.\<close>

definition is_process_active :: "world \<Rightarrow> string \<Rightarrow> bool" where
  "is_process_active w sid =
     (case registry w of
        Absent \<Rightarrow> False
      | Malformed \<Rightarrow> False
      | Parsed sessions \<Rightarrow>
          (case active_loop w sid sessions of Inl e \<Rightarrow> False | Inr b \<Rightarrow> b))"

text \<open>The body of the loop of \<^verbatim>\<open>scan_sessions\<close> for one file that \<^verbatim>\<open>stat\<close> has read.\<close>

definition analyze :: "analyzer \<Rightarrow> world \<Rightarrow> string \<Rightarrow> file_node \<Rightarrow> session_info" where
  "analyze a w name st =
     (let info = \<lparr>file_name = name, size_bytes = st_size st, modified = st_mtime st,
                  session_id = stem name, is_orphaned = False, reason = []\<rparr>;
          info = (if modified info < cutoff_date a
                  then info\<lparr>is_orphaned := True,
                            reason := reason info @ [OlderThan (retention_days a)]\<rparr>
                  else info)
      in if \<not> is_process_active w (session_id info)
         then info\<lparr>is_orphaned := True, reason := reason info @ [NoActiveProcess]\<rparr>
         else info\<lparr>is_orphaned := False\<rparr>)"

text \<open>\<^verbatim>\<open>sessions_dir.glob("*.jsonl")\<close>.\<close>

definition glob_jsonl :: "world \<Rightarrow> string list" where
  "glob_jsonl w = filter (suffix ''.jsonl'') (map fst (entries w))"

fun scan_loop :: "analyzer \<Rightarrow> world \<Rightarrow> string list \<Rightarrow> session_info list" where
  "scan_loop a w [] = []"
| "scan_loop a w (name # names) =
     (if sublist ''.deleted.'' name then scan_loop a w names
      else case stat w name of
             Inl e \<Rightarrow> scan_loop a w names
           | Inr st \<Rightarrow> analyze a w name st # scan_loop a w names)"

definition scan_sessions :: "analyzer \<Rightarrow> world \<Rightarrow> session_info list" where
  "scan_sessions a w =
     (if \<not> dir_exists w then []
      else sort_key modified (scan_loop a w (glob_jsonl w)))"

subsection \<open>SuperMemoryArchiver\<close>

record archiver =
  archived_count :: nat
  failed_count :: nat

definition SuperMemoryArchiver :: archiver where
  "SuperMemoryArchiver = \<lparr>archived_count = 0, failed_count = 0\<rparr>"

text \<open>The name of the archive record: the stem of the file, an underscore, the time as
  \<^verbatim>\<open>%Y%m%d_%H%M%S\<close>, and \<^verbatim>\<open>.json\<close>.\<close>

definition archive_name :: "world \<Rightarrow> string \<Rightarrow> string" where
  "archive_name w path = stem path @ ''_'' @ strftime w ArchiveStamp (now w) @ ''.json''"

text \<open>The body of the \<^verbatim>\<open>try\<close> of \<^verbatim>\<open>archive_session\<close>: \<open>Inl\<close> is an exception raised inside
  it, \<open>Inr\<close> a \<^verbatim>\<open>return\<close>.\<close>

definition archive_body :: "archiver \<Rightarrow> string \<Rightarrow> world \<Rightarrow> exn + (bool \<times> archiver \<times> world)" where
  "archive_body ar path w =
     (if \<not> exists_file w path then Inr (False, ar, logging (LogFileNotFound path) w)
      else case read_text w path of
        Inl e \<Rightarrow> Inl e
      | Inr text \<Rightarrow>
          if strip text = [] then Inr (True, ar, logging (LogEmptyTranscript path) w)
          else
            (let entry = \<lparr>ae_session_id = stem path, ae_archived_at = now w,
                          ae_original_path = path,
                          ae_content_preview =
                            (if length text > 1000 then take 1000 text else text)\<rparr>
             in if mkdir_raises w then Inl OSError
                else
                  (let archive_file = archive_name w path
                   in if write_raises w archive_file then Inl OSError
                      else Inr (True, ar\<lparr>archived_count := archived_count ar + 1\<rparr>,
                                logging (LogArchived path archive_file)
                                  (w\<lparr>archives := (archives w)(archive_file \<mapsto> entry)\<rparr>)))))"

definition archive_session :: "archiver \<Rightarrow> string \<Rightarrow> world \<Rightarrow> bool \<times> archiver \<times> world" where
  "archive_session ar path w =
     (case archive_body ar path w of
        Inl e \<Rightarrow> (False, ar\<lparr>failed_count := failed_count ar + 1\<rparr>, logging (LogArchiveError path) w)
      | Inr r \<Rightarrow> r)"

subsection \<open>SwarmJanitor\<close>

record stats =
  scanned :: nat
  orphaned :: nat
  archived :: nat
  deleted :: nat
  failed :: nat
  space_reclaimed_bytes :: nat

record janitor =
  analyzer_of :: analyzer
  archiver_of :: archiver
  dry_run :: bool
  archive_enabled :: bool
  stats_of :: stats

text \<open>\<^verbatim>\<open>SwarmJanitor.__init__\<close>, at the time \<open>t\<close> of the construction.\<close>

definition SwarmJanitor :: "int \<Rightarrow> bool \<Rightarrow> bool \<Rightarrow> datetime \<Rightarrow> janitor" where
  "SwarmJanitor days dry arch t =
     \<lparr>analyzer_of = SessionAnalyzer days t, archiver_of = SuperMemoryArchiver,
      dry_run = dry, archive_enabled = arch,
      stats_of = \<lparr>scanned = 0, orphaned = 0, archived = 0, deleted = 0, failed = 0,
                  space_reclaimed_bytes = 0\<rparr>\<rparr>"

text \<open>The name of the marker: the name of the file, \<^verbatim>\<open>.deleted.\<close>, the time as
  \<^verbatim>\<open>%Y-%m-%dT%H-%M-%S.%f\<close>, and \<^verbatim>\<open>Z\<close>.\<close>

definition marker_name :: "world \<Rightarrow> string \<Rightarrow> string" where
  "marker_name w name = name @ ''.deleted.'' @ strftime w MarkerStamp (now w) @ ''Z''"

definition count_failed :: "janitor \<Rightarrow> janitor" where
  "count_failed j = j\<lparr>stats_of := (stats_of j)\<lparr>failed := failed (stats_of j) + 1\<rparr>\<rparr>"

text \<open>The second half of \<^verbatim>\<open>_process_session\<close>: size, unlink, marker, counters. An
  exception keeps what was done before it and counts one failure.\<close>

definition delete_session :: "janitor \<Rightarrow> string \<Rightarrow> world \<Rightarrow> janitor \<times> world" where
  "delete_session j file_path w =
     (case stat w file_path of
        Inl e \<Rightarrow> (count_failed j, logging (LogProcessFailed file_path) w)
      | Inr st \<Rightarrow>
          (let size = st_size st
           in case unlink file_path w of
                Inl e \<Rightarrow> (count_failed j, logging (LogProcessFailed file_path) w)
              | Inr w1 \<Rightarrow>
                  (let deleted_marker = marker_name w1 file_path
                   in case touch deleted_marker w1 of
                        Inl e \<Rightarrow> (count_failed j, logging (LogProcessFailed file_path) w1)
                      | Inr w2 \<Rightarrow>
                          (j\<lparr>stats_of := (stats_of j)
                               \<lparr>deleted := deleted (stats_of j) + 1,
                                space_reclaimed_bytes := space_reclaimed_bytes (stats_of j) + size\<rparr>\<rparr>,
                           logging (LogDeleted file_path) w2))))"

definition process_session :: "janitor \<Rightarrow> session_info \<Rightarrow> world \<Rightarrow> janitor \<times> world" where
  "process_session j session w =
     (let file_path = file_name session
      in if archive_enabled j
         then (case archive_session (archiver_of j) file_path w of
                 (ok, ar, w1) \<Rightarrow>
                   (let j1 = j\<lparr>archiver_of := ar\<rparr>
                    in if ok
                       then delete_session
                              (j1\<lparr>stats_of := (stats_of j1)\<lparr>archived := archived (stats_of j1) + 1\<rparr>\<rparr>)
                              file_path w1
                       else (count_failed j1, logging (LogArchiveFailed file_path) w1)))
         else delete_session j file_path w)"

text \<open>\<^verbatim>\<open>input()\<close>: the next line of the console, or \<^verbatim>\<open>EOFError\<close>.\<close>

definition input :: "world \<Rightarrow> (exn + string) \<times> world" where
  "input w = (case stdin w of [] \<Rightarrow> (Inl EOFError, w) | l # ls \<Rightarrow> (Inr l, w\<lparr>stdin := ls\<rparr>))"

text \<open>The truth value of \<^verbatim>\<open>os.getenv(...)\<close>: set and not empty.\<close>

definition truthy :: "string option \<Rightarrow> bool" where
  "truthy v = (case v of None \<Rightarrow> False | Some s \<Rightarrow> s \<noteq> [])"

definition confirm_action :: "nat \<Rightarrow> world \<Rightarrow> bool \<times> world" where
  "confirm_action count w =
     (if truthy (force_env w) then (True, w)
      else case input w of
             (Inr response, w1) \<Rightarrow> (strip (lower response) = ''y'', w1)
           | (Inl e, w1) \<Rightarrow> (True, logging LogNonInteractive w1))"

fun process_all :: "session_info list \<Rightarrow> janitor \<Rightarrow> world \<Rightarrow> janitor \<times> world" where
  "process_all [] j w = (j, w)"
| "process_all (session # rest) j w =
     (case process_session j session w of (j1, w1) \<Rightarrow> process_all rest j1 w1)"

definition log_orphan :: "session_info \<Rightarrow> world \<Rightarrow> world" where
  "log_orphan s w = logging (LogOrphan (file_name s) (size_bytes s) (modified s) (reason s)) w"

text \<open>\<^verbatim>\<open>SwarmJanitor.run\<close>; the statistics it returns are \<open>stats_of\<close> of the janitor.\<close>

definition run :: "janitor \<Rightarrow> world \<Rightarrow> janitor \<times> world" where
  "run j w =
     (let sessions = scan_sessions (analyzer_of j) w;
          j = j\<lparr>stats_of := (stats_of j)\<lparr>scanned := length sessions\<rparr>\<rparr>;
          orphans = filter is_orphaned sessions;
          j = j\<lparr>stats_of := (stats_of j)\<lparr>orphaned := length orphans\<rparr>\<rparr>
      in if orphans = [] then (j, logging LogNothingToDo w)
         else
           (let w = fold log_orphan orphans w
            in if dry_run j then (j, logging LogDryRun w)
               else case confirm_action (length orphans) w of
                      (False, w1) \<Rightarrow> (j, logging LogCancelled w1)
                    | (True, w1) \<Rightarrow>
                        (case process_all orphans j w1 of
                           (j2, w2) \<Rightarrow> (j2, logging LogSummary w2))))"

subsection \<open>The legacy script \<^verbatim>\<open>cleanup.py\<close>\<close>






subsection \<open>Vocabulary of the statements\<close>

text \<open>The tests that \<^verbatim>\<open>_is_process_active\<close> applies to one item of the registry, named
  so that the theorems can speak about them.
  \<^item> \<open>entry_matches\<close>: the session is a \<^verbatim>\<open>dict\<close> and the identifier occurs in the key or in
    \<^verbatim>\<open>str(session.get("sessionId", ""))\<close>.
  \<^item> \<open>entry_updatedAt\<close>: the value of \<^verbatim>\<open>session.get("updatedAt", 0)\<close>.
  \<^item> \<open>entry_updated\<close>: the datetime that \<^verbatim>\<open>fromtimestamp\<close> makes of a truthy
    \<^verbatim>\<open>updatedAt\<close>, if it is a number and the conversion does not raise.
  \<^item> \<open>entry_live\<close>: the session matches and that datetime is less than one hour before
    \<^verbatim>\<open>datetime.now()\<close>.
  \<^item> \<open>entry_raises\<close>: the loop raises on this item: the session is not a \<^verbatim>\<open>dict\<close>, or it
    matches and its truthy \<^verbatim>\<open>updatedAt\<close> is not a number or does not convert.\<close>

definition entry_matches :: "world \<Rightarrow> string \<Rightarrow> string \<times> json \<Rightarrow> bool" where
  "entry_matches w sid x =
     (case snd x of
        JObj session \<Rightarrow>
          sublist sid (fst x) \<or> sublist sid (py_str w (dict_get session ''sessionId'' (JStr [])))
      | _ \<Rightarrow> False)"

definition entry_updatedAt :: "string \<times> json \<Rightarrow> json" where
  "entry_updatedAt x =
     (case snd x of JObj session \<Rightarrow> dict_get session ''updatedAt'' (JNum (IntN 0)) | _ \<Rightarrow> JNull)"

definition entry_updated :: "world \<Rightarrow> string \<times> json \<Rightarrow> datetime option" where
  "entry_updated w x =
     (if truthy_json (entry_updatedAt x)
      then (case number_of (entry_updatedAt x) of None \<Rightarrow> None | Some n \<Rightarrow> fromtimestamp w n)
      else None)"

definition entry_live :: "world \<Rightarrow> string \<Rightarrow> string \<times> json \<Rightarrow> bool" where
  "entry_live w sid x =
     (entry_matches w sid x \<and>
      (case entry_updated w x of
         None \<Rightarrow> False
       | Some updated_dt \<Rightarrow> now w - updated_dt < timedelta_hours 1))"

definition entry_raises :: "world \<Rightarrow> string \<Rightarrow> string \<times> json \<Rightarrow> bool" where
  "entry_raises w sid x =
     (case snd x of
        JObj session \<Rightarrow>
          entry_matches w sid x \<and> truthy_json (entry_updatedAt x) \<and> entry_updated w x = None
      | _ \<Rightarrow> True)"

text \<open>The lines of the log that report the outcome of one record, and the file they name;
  the files reported as deleted; the lines a step added to the log.\<close>

fun outcome_name :: "log_event \<Rightarrow> string option" where
  "outcome_name (LogArchiveFailed n) = Some n"
| "outcome_name (LogDeleted n) = Some n"
| "outcome_name (LogProcessFailed n) = Some n"
| "outcome_name e = None"

definition processed :: "log_event list \<Rightarrow> string list" where
  "processed lg = List.map_filter outcome_name lg"

fun deleted_name :: "log_event \<Rightarrow> string option" where
  "deleted_name (LogDeleted n) = Some n"
| "deleted_name e = None"

definition deleted_log :: "log_event list \<Rightarrow> string list" where
  "deleted_log lg = List.map_filter deleted_name lg"

definition new_log :: "world \<Rightarrow> world \<Rightarrow> log_event list" where
  "new_log w w' = drop (length (log w)) (log w')"

text \<open>The size on disk of a file of the directory (0 when there is no such file).\<close>

definition size_on_disk :: "world \<Rightarrow> string \<Rightarrow> nat" where
  "size_on_disk w n = (case lookup_file w n of None \<Rightarrow> 0 | Some f \<Rightarrow> st_size f)"

text \<open>The orphaned records of a scan, as \<^verbatim>\<open>run\<close> computes them.\<close>

definition orphans_of :: "janitor \<Rightarrow> world \<Rightarrow> session_info list" where
  "orphans_of j w = filter is_orphaned (scan_sessions (analyzer_of j) w)"



text \<open>Two worlds with the same clock, the same time formats and the same failures.\<close>

definition same_env :: "world \<Rightarrow> world \<Rightarrow> bool" where
  "same_env w w' \<longleftrightarrow>
     now w' = now w \<and> strftime w' = strftime w \<and> stat_raises w' = stat_raises w \<and>
     read_raises w' = read_raises w \<and> unlink_raises w' = unlink_raises w \<and>
     touch_raises w' = touch_raises w \<and> mkdir_raises w' = mkdir_raises w \<and>
     write_raises w' = write_raises w"

text \<open>The janitor after the scan: the two counters of the scan are set.\<close>

definition counted :: "janitor \<Rightarrow> world \<Rightarrow> janitor" where
  "counted j w = j\<lparr>stats_of := (stats_of j)
     \<lparr>scanned := length (scan_sessions (analyzer_of j) w),
      orphaned := length (orphans_of j w)\<rparr>\<rparr>"

subsection \<open>Example worlds\<close>

text \<open>A platform on UTC: an \<^verbatim>\<open>int\<close> of milliseconds in the years 1 to 9999 is that
  many milliseconds on the calendar, a float is rounded to the nearest microsecond (a tie
  to the even one), and \<^verbatim>\<open>fromtimestamp\<close> raises outside those years.\<close>

definition round_half_even :: "int \<Rightarrow> int \<Rightarrow> int" where
  "round_half_even a b =
     (let q = a div b; r = a mod b
      in if 2 * r < b then q else if b < 2 * r then q + 1 else if even q then q else q + 1)"

definition utc_microseconds :: "number \<Rightarrow> int" where
  "utc_microseconds x =
     (case x of
        IntN ms \<Rightarrow> ms * 1000
      | FloatN m e \<Rightarrow>
          if 0 \<le> e then m * 2 ^ nat e * 1000 else round_half_even (m * 1000) (2 ^ nat (- e)))"

definition utc_fromtimestamp :: "number \<Rightarrow> datetime option" where
  "utc_fromtimestamp x =
     (let us = utc_microseconds x
      in if - 62135596800000000 \<le> us \<and> us \<le> 253402300799999999 then Some us else None)"

text \<open>A directory that exists and is empty, no registry, nothing raises, the force
  variable set to \<^verbatim>\<open>1\<close>, on that platform. The clock stands at 1700000000 seconds.\<close>

definition base_world :: world where
  "base_world =
     \<lparr>dir_exists = True, entries = [], registry = Absent, archives = Map.empty,
      archive_dir = Map.empty, now = 1700000000000000,
      strftime = (\<lambda>f t. ''T''),
      fromtimestamp = utc_fromtimestamp, repr_text = (\<lambda>v. ''?''),
      stat_raises = (\<lambda>n. False), read_raises = (\<lambda>n. False), unlink_raises = (\<lambda>n. False),
      touch_raises = (\<lambda>n. False), mkdir_raises = False, write_raises = (\<lambda>n. False),
      rename_raises = (\<lambda>n. False), force_env = Some ''1'', stdin = [], log = []\<rparr>"

text \<open>A file of two bytes, modified ten days before the clock of \<^const>\<open>base_world\<close>.\<close>

definition old_file :: file_node where
  "old_file =
     \<lparr>content = ''{}'', st_size = 2, st_mtime = 1699136000000000, st_ctime = 1699136000000000\<rparr>"

text \<open>\<^verbatim>\<open>abc.jsonl\<close>, ten days old, and a session of the registry for it updated 100 seconds
  ago.\<close>

definition live_entry :: "string \<times> json" where
  "live_entry =
     (''agent:main:abc'',
      JObj [(''sessionId'', JStr ''abc''), (''updatedAt'', JNum (IntN 1699999900000))])"

definition live_world :: world where
  "live_world = base_world\<lparr>entries := [(''abc.jsonl'', old_file)], registry := Parsed [live_entry]\<rparr>"

text \<open>The same, behind a session whose key contains \<^verbatim>\<open>abc\<close> too and whose \<^verbatim>\<open>updatedAt\<close> lies
  in the year 31690708.\<close>

definition far_entry :: "string \<times> json" where
  "far_entry =
     (''agent:main:abc-old'',
      JObj [(''sessionId'', JStr ''abc-old''), (''updatedAt'', JNum (IntN 1000000000000000000))])"

definition poisoned_world :: world where
  "poisoned_world = live_world\<lparr>registry := Parsed [far_entry, live_entry]\<rparr>"

text \<open>Only the session \<^verbatim>\<open>xabcx\<close> is registered: another session, whose identifier contains
  \<^verbatim>\<open>abc\<close>.\<close>

definition neighbour_world :: world where
  "neighbour_world = live_world
     \<lparr>registry := Parsed
        [(''agent:main:xabcx'',
          JObj [(''sessionId'', JStr ''xabcx''), (''updatedAt'', JNum (IntN 1699999900000))])]\<rparr>"

text \<open>The live session behind an item that is \<^verbatim>\<open>null\<close>, under a key that has nothing to
  do with \<^verbatim>\<open>abc\<close>.\<close>

definition null_world :: world where
  "null_world = live_world\<lparr>registry := Parsed [(''agent:main:zzz'', JNull), live_entry]\<rparr>"

text \<open>A platform in a zone that moves its clocks forward by one hour at the instant
  1710054000 of the epoch (five hours behind UTC before it, four after it), two minutes
  after that instant; the session of \<^verbatim>\<open>abc\<close> was updated 120 seconds before now, one
  minute before the change. Integers only.\<close>

definition spring_fromtimestamp :: "number \<Rightarrow> datetime option" where
  "spring_fromtimestamp x =
     (case x of
        IntN ms \<Rightarrow>
          if ms < 1710054000000 then Some ((ms - 18000000) * 1000)
          else Some ((ms - 14400000) * 1000)
      | FloatN m e \<Rightarrow> None)"

definition spring_world :: world where
  "spring_world = base_world
     \<lparr>now := 1710039660000000, fromtimestamp := spring_fromtimestamp,
      entries := [(''abc.jsonl'', old_file)],
      registry := Parsed
        [(''agent:main:abc'',
          JObj [(''sessionId'', JStr ''abc''), (''updatedAt'', JNum (IntN 1710053940000))])]\<rparr>"

text \<open>The same zone where it moves its clocks back by one hour, at the instant 1730613600 of
  the epoch, which is now; the session was updated 5400 seconds before.\<close>

definition autumn_fromtimestamp :: "number \<Rightarrow> datetime option" where
  "autumn_fromtimestamp x =
     (case x of
        IntN ms \<Rightarrow>
          if ms < 1730613600000 then Some ((ms - 14400000) * 1000)
          else Some ((ms - 18000000) * 1000)
      | FloatN m e \<Rightarrow> None)"

definition autumn_world :: world where
  "autumn_world = base_world
     \<lparr>now := 1730595600000000, fromtimestamp := autumn_fromtimestamp,
      entries := [(''abc.jsonl'', old_file)],
      registry := Parsed
        [(''agent:main:abc'',
          JObj [(''sessionId'', JStr ''abc''), (''updatedAt'', JNum (IntN 1730608200000))])]\<rparr>"

text \<open>The console of \<^const>\<open>base_world\<close> without the force variable, with the given lines
  to read.\<close>

definition asking_world :: "string list \<Rightarrow> world" where
  "asking_world lines = base_world\<lparr>force_env := None, stdin := lines\<rparr>"

text \<open>A file of white space; a directory with it, with \<^verbatim>\<open>abc.jsonl\<close> and with a file that
  cannot be read.\<close>

definition blank_file :: file_node where
  "blank_file = \<lparr>content = [CHR '' '', CHR 0x0A], st_size = 2, st_mtime = 1699136000000000,
                  st_ctime = 1699136000000000\<rparr>"

definition archive_world :: world where
  "archive_world = base_world
     \<lparr>entries := [(''blank.jsonl'', blank_file), (''abc.jsonl'', old_file), (''locked.jsonl'', old_file)],
      read_raises := (\<lambda>n. n = ''locked.jsonl'')\<rparr>"

text \<open>Four session files and no registry: one cannot be read, one cannot be unlinked.
  A janitor in destructive mode and one in dry-run mode, both archiving, constructed at
  the clock of the world; the record that the scan makes of the unreadable file.\<close>

definition messy_world :: world where
  "messy_world = base_world
     \<lparr>entries :=
        [(''new.jsonl'', \<lparr>content = ''hello'', st_size = 5, st_mtime = 1699999000000000,
                          st_ctime = 1699999000000000\<rparr>),
         (''abc.jsonl'', old_file),
         (''locked.jsonl'', \<lparr>content = ''secret!'', st_size = 7, st_mtime = 1698000000000000,
                             st_ctime = 1698000000000000\<rparr>),
         (''stuck.jsonl'', \<lparr>content = ''hello world'', st_size = 11, st_mtime = 1699500000000000,
                            st_ctime = 1699500000000000\<rparr>)],
      read_raises := (\<lambda>n. n = ''locked.jsonl''),
      unlink_raises := (\<lambda>n. n = ''stuck.jsonl'')\<rparr>"

definition live_janitor :: janitor where
  "live_janitor = SwarmJanitor 3 False True 1700000000000000"

definition dry_janitor :: janitor where
  "dry_janitor = SwarmJanitor 3 True True 1700000000000000"

definition locked_record :: session_info where
  "locked_record =
     \<lparr>file_name = ''locked.jsonl'', size_bytes = 7, modified = 1698000000000000,
      session_id = ''locked'', is_orphaned = True, reason = [OlderThan 3, NoActiveProcess]\<rparr>"




section \<open>The scanner\<close>

lemma analyze_is_orphaned:
  "is_orphaned (analyze a w n st) = (\<not> is_process_active w (stem n))"
  by (simp add: analyze_def Let_def)

lemma analyze_reason:
  "reason (analyze a w n st) =
     (if st_mtime st < cutoff_date a then [OlderThan (retention_days a)] else []) @
     (if is_process_active w (stem n) then [] else [NoActiveProcess])"
  by (simp add: analyze_def Let_def)

lemma analyze_fields:
  "file_name (analyze a w n st) = n"
  "modified (analyze a w n st) = st_mtime st"
  "size_bytes (analyze a w n st) = st_size st"
  "session_id (analyze a w n st) = stem n"
  by (simp_all add: analyze_def Let_def)

lemma scan_loop_set:
  "set (scan_loop a w names) =
     {analyze a w n st | n st. n \<in> set names \<and> \<not> sublist ''.deleted.'' n \<and> stat w n = Inr st}"
proof (induction names)
  case Nil
  show ?case by simp
next
  case (Cons m names)
  show ?case
  proof (cases "sublist ''.deleted.'' m")
    case True
    with Cons.IH show ?thesis by auto
  next
    case False
    show ?thesis
    proof (cases "stat w m")
      case (Inl e)
      with False Cons.IH show ?thesis by auto
    next
      case (Inr st)
      with False Cons.IH show ?thesis by auto
    qed
  qed
qed

lemma scan_sessions_set:
  "s \<in> set (scan_sessions a w) \<Longrightarrow>
     \<exists>n st. s = analyze a w n st \<and> n \<in> set (glob_jsonl w) \<and>
       \<not> sublist ''.deleted.'' n \<and> stat w n = Inr st"
  by (auto simp: scan_sessions_def scan_loop_set split: if_splits)

lemma scan_sessions_mem:
  "dir_exists w \<Longrightarrow> n \<in> set (glob_jsonl w) \<Longrightarrow> \<not> sublist ''.deleted.'' n \<Longrightarrow>
     stat w n = Inr st \<Longrightarrow> analyze a w n st \<in> set (scan_sessions a w)"
  by (auto simp: scan_sessions_def scan_loop_set)

text \<open>The first entry with a property \<open>P\<close>, all entries before it having \<open>Q\<close>.\<close>

lemma first_hit_Cons:
  "(\<exists>pre x post. e # es = pre @ x # post \<and> P x \<and> (\<forall>y \<in> set pre. Q y)) \<longleftrightarrow>
     P e \<or> (Q e \<and> (\<exists>pre x post. es = pre @ x # post \<and> P x \<and> (\<forall>y \<in> set pre. Q y)))"
  (is "?L \<longleftrightarrow> ?R")
proof
  assume ?L
  then obtain pre x post where h: "e # es = pre @ x # post" "P x" "\<forall>y \<in> set pre. Q y"
    by blast
  show ?R
  proof (cases pre)
    case Nil
    with h show ?thesis by simp
  next
    case (Cons p pre')
    with h have "es = pre' @ x # post" "Q e" "\<forall>y \<in> set pre'. Q y" by auto
    with h(2) show ?thesis by blast
  qed
next
  assume ?R
  then show ?L
  proof
    assume "P e"
    then have "e # es = [] @ e # es \<and> P e \<and> (\<forall>y \<in> set []. Q y)" by simp
    then show ?L by blast
  next
    assume "Q e \<and> (\<exists>pre x post. es = pre @ x # post \<and> P x \<and> (\<forall>y \<in> set pre. Q y))"
    then obtain pre x post where h: "Q e" "es = pre @ x # post" "P x" "\<forall>y \<in> set pre. Q y"
      by blast
    then have "e # es = (e # pre) @ x # post \<and> P x \<and> (\<forall>y \<in> set (e # pre). Q y)" by simp
    then show ?L by blast
  qed
qed

lemma active_loop_True_iff:
  "active_loop w sid es = Inr True \<longleftrightarrow>
     (\<exists>pre x post. es = pre @ x # post \<and> entry_live w sid x \<and>
        (\<forall>y \<in> set pre. \<not> entry_raises w sid y))"
proof (induction es)
  case Nil
  show ?case by simp
next
  case (Cons e es)
  obtain key session where e: "e = (key, session)" by (cases e)
  have step: "active_loop w sid (e # es) = Inr True \<longleftrightarrow>
      entry_live w sid e \<or> (\<not> entry_raises w sid e \<and> active_loop w sid es = Inr True)"
  proof (cases session)
    case (JObj items)
    then show ?thesis
      by (auto simp: e entry_matches_def entry_live_def entry_raises_def entry_updated_def
          entry_updatedAt_def Let_def split: option.splits)
  qed (simp_all add: e entry_live_def entry_raises_def entry_matches_def)
  show ?case
    unfolding step Cons.IH
    by (rule first_hit_Cons [symmetric])
qed

lemma is_process_active_iff:
  "is_process_active w sid \<longleftrightarrow>
     (\<exists>pre x post. registry w = Parsed (pre @ x # post) \<and> entry_live w sid x \<and>
        (\<forall>y \<in> set pre. \<not> entry_raises w sid y))"
proof (cases "registry w")
  case Absent
  then show ?thesis by (simp add: is_process_active_def)
next
  case Malformed
  then show ?thesis by (simp add: is_process_active_def)
next
  case (Parsed es)
  have "is_process_active w sid \<longleftrightarrow> active_loop w sid es = Inr True"
    using Parsed by (auto simp: is_process_active_def split: sum.splits)
  then show ?thesis
    using Parsed by (simp add: active_loop_True_iff)
qed

text \<open>
  \<^bold>\<open>C1\<close>, as the specification states it, does not hold.
  The specification: a record returned by \<^verbatim>\<open>scan_sessions\<close> is orphaned if and
  only if its reason list is not empty. The age rule appends its reason before the
  liveness rule runs, and the \<^verbatim>\<open>else\<close> branch of the liveness rule resets the flag
  without touching the list: the record of \<^const>\<open>live_world\<close> is not orphaned and keeps the
  reason \<open>OlderThan 3\<close>.
\<close>

theorem orphaned_iff_reasons_counterexample:
  "scan_sessions (SessionAnalyzer 3 1700000000000000) live_world =
     [\<lparr>file_name = ''abc.jsonl'', size_bytes = 2, modified = 1699136000000000,
       session_id = ''abc'', is_orphaned = False, reason = [OlderThan 3]\<rparr>]"
  by code_simp

text \<open>
  \<^bold>\<open>C1\<close>, as amended. For every record returned by \<^verbatim>\<open>scan_sessions\<close>: the record is
  orphaned if and only if its reason list contains "No active process", so an orphaned
  record has at least one reason; a record that is not orphaned and whose file is older
  than the cut-off date (the liveness rule overrode the age rule) keeps the single reason
  "Older than N days", and a record that is not orphaned has no other reason. In full,
  the reason list is "Older than N days" exactly when the file is older than the cut-off
  date, followed by "No active process" exactly when the record is orphaned.
\<close>

theorem orphaned_iff_no_active_process_reason:
  "\<forall>s \<in> set (scan_sessions a w).
     (is_orphaned s \<longleftrightarrow> NoActiveProcess \<in> set (reason s)) \<and>
     (is_orphaned s \<longrightarrow> reason s \<noteq> []) \<and>
     (\<not> is_orphaned s \<and> modified s < cutoff_date a \<longrightarrow>
        reason s = [OlderThan (retention_days a)]) \<and>
     (\<not> is_orphaned s \<and> reason s \<noteq> [] \<longrightarrow>
        reason s = [OlderThan (retention_days a)] \<and> modified s < cutoff_date a) \<and>
     reason s =
       (if modified s < cutoff_date a then [OlderThan (retention_days a)] else []) @
       (if is_orphaned s then [NoActiveProcess] else [])"
proof
  fix s assume "s \<in> set (scan_sessions a w)"
  then obtain n st where s: "s = analyze a w n st"
    using scan_sessions_set by blast
  show "(is_orphaned s \<longleftrightarrow> NoActiveProcess \<in> set (reason s)) \<and>
     (is_orphaned s \<longrightarrow> reason s \<noteq> []) \<and>
     (\<not> is_orphaned s \<and> modified s < cutoff_date a \<longrightarrow>
        reason s = [OlderThan (retention_days a)]) \<and>
     (\<not> is_orphaned s \<and> reason s \<noteq> [] \<longrightarrow>
        reason s = [OlderThan (retention_days a)] \<and> modified s < cutoff_date a) \<and>
     reason s =
       (if modified s < cutoff_date a then [OlderThan (retention_days a)] else []) @
       (if is_orphaned s then [NoActiveProcess] else [])"
    unfolding s by (simp add: analyze_is_orphaned analyze_reason analyze_fields)
qed

theorem orphaned_iff_no_active_process_reason_witness:
  "\<exists>s \<in> set (scan_sessions (SessionAnalyzer 3 1700000000000000) live_world).
     \<not> is_orphaned s \<and> modified s < cutoff_date (SessionAnalyzer 3 1700000000000000) \<and>
     reason s = [OlderThan 3]"
proof -
  let ?a = "SessionAnalyzer 3 1700000000000000"
  let ?s = "\<lparr>file_name = ''abc.jsonl'', size_bytes = 2, modified = 1699136000000000,
             session_id = ''abc'', is_orphaned = False, reason = [OlderThan 3]\<rparr>"
  have mem: "?s \<in> set (scan_sessions ?a live_world)"
    by code_simp
  have days: "retention_days ?a = 3"
    by (simp add: SessionAnalyzer_def)
  have old: "\<not> is_orphaned ?s \<and> modified ?s < cutoff_date ?a"
    by code_simp
  from orphaned_iff_no_active_process_reason [of ?a live_world] mem
  have "\<not> is_orphaned ?s \<and> modified ?s < cutoff_date ?a \<longrightarrow>
          reason ?s = [OlderThan (retention_days ?a)]"
    by blast
  with old have "\<not> is_orphaned ?s \<and> modified ?s < cutoff_date ?a \<and> reason ?s = [OlderThan 3]"
    by (simp add: days)
  with mem show ?thesis by blast
qed

text \<open>
  \<^bold>\<open>C2\<close>, as the specification states it, does not hold.
  The specification: a file whose identifier matches a registry entry updated
  within the last hour is marked non-orphaned, whatever its age. The whole loop of
  \<^verbatim>\<open>_is_process_active\<close> stands in one \<^verbatim>\<open>try\<close>: in \<^const>\<open>poisoned_world\<close> the first
  matching entry carries a time stamp on which \<^verbatim>\<open>fromtimestamp\<close> raises, the handler
  answers False, and the live entry behind it is never read. The file is marked orphaned.
\<close>

theorem liveness_overrides_age_counterexample:
  "registry poisoned_world = Parsed [far_entry, live_entry] \<and>
   entry_matches poisoned_world (stem ''abc.jsonl'') live_entry \<and>
   entry_updatedAt live_entry = JNum (IntN 1699999900000) \<and>
   now poisoned_world = 1700000000000000 \<and>
   entry_live poisoned_world (stem ''abc.jsonl'') live_entry \<and>
   scan_sessions (SessionAnalyzer 3 1700000000000000) poisoned_world =
     [\<lparr>file_name = ''abc.jsonl'', size_bytes = 2, modified = 1699136000000000,
       session_id = ''abc'', is_orphaned = True, reason = [OlderThan 3, NoActiveProcess]\<rparr>]"
  by code_simp

text \<open>
  \<^bold>\<open>C2\<close>, as amended. Let the identifier of a session file occur in the key or in the
  text of the \<^verbatim>\<open>sessionId\<close> of a registry entry that is an object and whose
  \<^verbatim>\<open>updatedAt\<close> is a truthy number that \<^verbatim>\<open>fromtimestamp\<close> converts to a datetime less
  than one hour before \<^verbatim>\<open>datetime.now()\<close> (two naive local datetimes: the hour is
  measured on the wall clock of the process). Let no entry before it make the loop raise:
  none is a value other than an object, and none matches with a truthy \<^verbatim>\<open>updatedAt\<close>
  that is not a number or that \<^verbatim>\<open>fromtimestamp\<close> rejects. Then \<^verbatim>\<open>scan_sessions\<close> marks
  every record of that file non-orphaned, and there is such a record when the file is
  listed and \<^verbatim>\<open>stat\<close> succeeds; the modification time of the file plays no part.
\<close>

theorem liveness_overrides_age:
  assumes "registry w = Parsed (pre @ x # post)"
    and "entry_live w (stem name) x"
    and "\<forall>y \<in> set pre. \<not> entry_raises w (stem name) y"
  shows "(\<forall>s \<in> set (scan_sessions a w). file_name s = name \<longrightarrow> \<not> is_orphaned s) \<and>
         (dir_exists w \<and> name \<in> set (glob_jsonl w) \<and> \<not> sublist ''.deleted.'' name \<and>
          stat w name = Inr st \<longrightarrow>
            (\<exists>s \<in> set (scan_sessions a w).
                file_name s = name \<and> modified s = st_mtime st \<and> \<not> is_orphaned s))"
proof -
  have act: "is_process_active w (stem name)"
    unfolding is_process_active_iff using assms by blast
  have "\<forall>s \<in> set (scan_sessions a w). file_name s = name \<longrightarrow> \<not> is_orphaned s"
  proof (intro ballI impI)
    fix s assume "s \<in> set (scan_sessions a w)" and n: "file_name s = name"
    then obtain m st' where s: "s = analyze a w m st'"
      using scan_sessions_set by blast
    with n have "m = name" by (simp add: analyze_fields)
    with s act show "\<not> is_orphaned s" by (simp add: analyze_is_orphaned)
  qed
  moreover have "dir_exists w \<and> name \<in> set (glob_jsonl w) \<and> \<not> sublist ''.deleted.'' name \<and>
          stat w name = Inr st \<longrightarrow>
            (\<exists>s \<in> set (scan_sessions a w).
                file_name s = name \<and> modified s = st_mtime st \<and> \<not> is_orphaned s)"
  proof (intro impI)
    assume h: "dir_exists w \<and> name \<in> set (glob_jsonl w) \<and> \<not> sublist ''.deleted.'' name \<and>
          stat w name = Inr st"
    then have "analyze a w name st \<in> set (scan_sessions a w)"
      by (simp add: scan_sessions_mem)
    then show "\<exists>s \<in> set (scan_sessions a w).
                file_name s = name \<and> modified s = st_mtime st \<and> \<not> is_orphaned s"
      using act
      by (intro bexI [of _ "analyze a w name st"]) (simp_all add: analyze_fields analyze_is_orphaned)
  qed
  ultimately show ?thesis by blast
qed

theorem liveness_overrides_age_witness:
  "\<exists>s \<in> set (scan_sessions (SessionAnalyzer 3 1700000000000000) live_world).
      file_name s = ''abc.jsonl'' \<and> modified s = st_mtime old_file \<and> \<not> is_orphaned s \<and>
      modified s < cutoff_date (SessionAnalyzer 3 1700000000000000)"
proof -
  let ?a = "SessionAnalyzer 3 1700000000000000"
  have r: "registry live_world = Parsed ([] @ live_entry # [])" by code_simp
  have l: "entry_live live_world (stem ''abc.jsonl'') live_entry" by code_simp
  have p: "\<forall>y \<in> set []. \<not> entry_raises live_world (stem ''abc.jsonl'') y" by simp
  have h: "dir_exists live_world \<and> ''abc.jsonl'' \<in> set (glob_jsonl live_world) \<and>
           \<not> sublist ''.deleted.'' ''abc.jsonl'' \<and> stat live_world ''abc.jsonl'' = Inr old_file"
    by code_simp
  have old: "st_mtime old_file < cutoff_date ?a" by code_simp
  from liveness_overrides_age [OF r l p, of ?a old_file] h
  have "\<exists>s \<in> set (scan_sessions ?a live_world).
          file_name s = ''abc.jsonl'' \<and> modified s = st_mtime old_file \<and> \<not> is_orphaned s"
    by blast
  with old show ?thesis by auto
qed

text \<open>
  \<^bold>\<open>C10\<close>, as the specification states it, does not hold.
  The specification: \<^verbatim>\<open>_is_process_active\<close> answers True exactly when some
  entry whose key or \<^verbatim>\<open>sessionId\<close> contains the identifier has a truthy \<^verbatim>\<open>updatedAt\<close>
  within one hour of now. In \<^const>\<open>null_world\<close> the second entry is such an entry, and the
  answer is False: the first entry is \<^verbatim>\<open>null\<close>, \<^verbatim>\<open>session.get\<close> raises on it, and the
  handler of the \<^verbatim>\<open>try\<close> around the loop answers False.
\<close>

theorem active_iff_live_match_counterexample:
  "registry null_world = Parsed [(''agent:main:zzz'', JNull), live_entry] \<and>
   entry_matches null_world ''abc'' live_entry \<and>
   entry_updatedAt live_entry = JNum (IntN 1699999900000) \<and>
   now null_world = 1700000000000000 \<and>
   entry_live null_world ''abc'' live_entry \<and>
   \<not> is_process_active null_world ''abc''"
  by code_simp

text \<open>
  \<^bold>\<open>C10\<close>, as amended. Matching is by substring containment: \<^verbatim>\<open>_is_process_active\<close>
  answers True exactly when the registry was parsed and some entry is live, no entry
  before it raising. An entry is live when it is an object, the identifier occurs in its
  key or in the text of its \<^verbatim>\<open>sessionId\<close>, and its \<^verbatim>\<open>updatedAt\<close> is a truthy number that
  \<^verbatim>\<open>fromtimestamp\<close> converts to a datetime less than one hour before
  \<^verbatim>\<open>datetime.now()\<close>, both naive local datetimes, so that the hour is measured on the
  wall clock of the process. An entry raises when it is not an object, or when it matches
  with a truthy \<^verbatim>\<open>updatedAt\<close> that is not a number or that \<^verbatim>\<open>fromtimestamp\<close> rejects; the
  handler then answers False. Consequently an entry with \<^verbatim>\<open>updatedAt\<close> missing, 0 or
  otherwise falsy is never live, and no session is active if every matching entry is
  such; and a file can be kept alive by another session whose key merely contains its
  identifier (\<^verbatim>\<open>abc.jsonl\<close> by the session \<^verbatim>\<open>xabcx\<close> in \<^const>\<open>neighbour_world\<close>).
\<close>

theorem active_iff_live_match_before_error:
  "(is_process_active w sid \<longleftrightarrow>
      (\<exists>pre x post. registry w = Parsed (pre @ x # post) \<and> entry_live w sid x \<and>
         (\<forall>y \<in> set pre. \<not> entry_raises w sid y))) \<and>
   (entry_live w sid x \<longleftrightarrow>
      (\<exists>session n updated_dt. snd x = JObj session \<and>
         (sublist sid (fst x) \<or>
          sublist sid (py_str w (dict_get session ''sessionId'' (JStr [])))) \<and>
         truthy_json (dict_get session ''updatedAt'' (JNum (IntN 0))) \<and>
         number_of (dict_get session ''updatedAt'' (JNum (IntN 0))) = Some n \<and>
         fromtimestamp w n = Some updated_dt \<and>
         now w - updated_dt < timedelta_hours 1)) \<and>
   (\<not> truthy_json (entry_updatedAt x) \<longrightarrow> \<not> entry_live w sid x) \<and>
   (registry w = Parsed es \<and>
    (\<forall>x \<in> set es. entry_matches w sid x \<longrightarrow> \<not> truthy_json (entry_updatedAt x)) \<longrightarrow>
      \<not> is_process_active w sid) \<and>
   is_process_active neighbour_world (stem ''abc.jsonl'')"
proof (intro conjI)
  show "is_process_active w sid \<longleftrightarrow>
      (\<exists>pre x post. registry w = Parsed (pre @ x # post) \<and> entry_live w sid x \<and>
         (\<forall>y \<in> set pre. \<not> entry_raises w sid y))"
    by (rule is_process_active_iff)
  show "entry_live w sid x \<longleftrightarrow>
      (\<exists>session n updated_dt. snd x = JObj session \<and>
         (sublist sid (fst x) \<or>
          sublist sid (py_str w (dict_get session ''sessionId'' (JStr [])))) \<and>
         truthy_json (dict_get session ''updatedAt'' (JNum (IntN 0))) \<and>
         number_of (dict_get session ''updatedAt'' (JNum (IntN 0))) = Some n \<and>
         fromtimestamp w n = Some updated_dt \<and>
         now w - updated_dt < timedelta_hours 1)"
    by (cases "snd x")
       (auto simp: entry_live_def entry_matches_def entry_updated_def entry_updatedAt_def
          split: option.splits)
  show "\<not> truthy_json (entry_updatedAt x) \<longrightarrow> \<not> entry_live w sid x"
    by (simp add: entry_live_def entry_updated_def)
  show "registry w = Parsed es \<and>
    (\<forall>x \<in> set es. entry_matches w sid x \<longrightarrow> \<not> truthy_json (entry_updatedAt x)) \<longrightarrow>
      \<not> is_process_active w sid"
    unfolding is_process_active_iff by (auto simp: entry_live_def entry_updated_def)
  show "is_process_active neighbour_world (stem ''abc.jsonl'')"
    by code_simp
qed

theorem active_iff_live_match_before_error_witness:
  "is_process_active live_world ''abc'' \<and>
   (\<exists>pre x post. registry live_world = Parsed (pre @ x # post) \<and>
      entry_live live_world ''abc'' x \<and>
      (\<forall>y \<in> set pre. \<not> entry_raises live_world ''abc'' y)) \<and>
   \<not> is_process_active spring_world ''abc'' \<and>
   is_process_active autumn_world ''abc'' \<and>
   \<not> is_process_active poisoned_world ''abc''"
proof -
  have act: "is_process_active live_world ''abc''" by code_simp
  have quiet: "\<not> is_process_active spring_world ''abc''"
    "is_process_active autumn_world ''abc''" "\<not> is_process_active poisoned_world ''abc''"
    by code_simp+
  from act quiet active_iff_live_match_before_error [of live_world "''abc''"]
  show ?thesis by blast
qed

section \<open>Confirmation and archiving\<close>

lemma of_char_less_256: "(of_char c :: nat) < 256"
  by (cases c) simp

lemma lower_char_eq_y: "lower_char c = CHR ''y'' \<longleftrightarrow> c = CHR ''y'' \<or> c = CHR ''Y''"
proof -
  have a: "c = CHR ''y'' \<longleftrightarrow> (of_char c :: nat) = 121"
    using of_char_eq_iff [of c "CHR ''y''", where ?'a = nat] by simp
  have b: "c = CHR ''Y'' \<longleftrightarrow> (of_char c :: nat) = 89"
    using of_char_eq_iff [of c "CHR ''Y''", where ?'a = nat] by simp
  have c: "char_of (of_char c + 32 :: nat) = CHR ''y'' \<longleftrightarrow> (of_char c + 32 :: nat) mod 256 = 121"
    using of_char_eq_iff [of "char_of (of_char c + 32 :: nat)" "CHR ''y''", where ?'a = nat]
    by (simp add: of_char_of)
  show ?thesis
    using of_char_less_256 [of c]
    by (auto simp: lower_char_def Let_def a b c)
qed

lemma isspace_lower_char: "py_isspace (lower_char c) = py_isspace c"
proof -
  have "(of_char (char_of (of_char c + 32 :: nat)) :: nat) = (of_char c + 32) mod 256"
    by (simp add: of_char_of)
  then show ?thesis
    unfolding lower_char_def py_isspace_def Let_def using of_char_less_256 [of c]
    by auto
qed

lemma all_dropWhile: "(\<forall>x \<in> set (dropWhile P s). P x) \<longleftrightarrow> (\<forall>c \<in> set s. P c)"
  by (induction s) auto

lemma strip_Nil_iff: "strip s = [] \<longleftrightarrow> (\<forall>c \<in> set s. py_isspace c)"
  by (simp add: strip_def dropWhile_eq_Nil_conv all_dropWhile)

lemma strip_single_iff:
  "strip s = [x] \<longleftrightarrow>
     (\<exists>a b. s = a @ x # b \<and> (\<forall>c \<in> set a. py_isspace c) \<and> (\<forall>c \<in> set b. py_isspace c) \<and>
        \<not> py_isspace x)"
  (is "?L \<longleftrightarrow> ?R")
proof
  assume ?R
  then obtain a b where s: "s = a @ x # b" and a: "\<forall>c \<in> set a. py_isspace c"
    and b: "\<forall>c \<in> set b. py_isspace c" and x: "\<not> py_isspace x"
    by blast
  have "dropWhile py_isspace s = x # b"
    using a x by (simp add: s dropWhile_append2)
  moreover have "dropWhile py_isspace (rev b @ [x]) = [x]"
    using b x by (subst dropWhile_append2) simp_all
  ultimately show ?L by (simp add: strip_def)
next
  assume l: ?L
  let ?d = "dropWhile py_isspace s"
  from l have r: "dropWhile py_isspace (rev ?d) = [x]"
    by (simp add: strip_def rev_swap [symmetric])
  then have x: "\<not> py_isspace x"
    using hd_dropWhile [of py_isspace "rev ?d"] by auto
  have "rev ?d = takeWhile py_isspace (rev ?d) @ [x]"
    using takeWhile_dropWhile_id [of py_isspace "rev ?d"] r by simp
  then have d: "?d = x # rev (takeWhile py_isspace (rev ?d))"
    by (metis rev_append rev_rev_ident rev_singleton_conv append_Cons append_Nil)
  have "s = takeWhile py_isspace s @ x # rev (takeWhile py_isspace (rev ?d))"
    using takeWhile_dropWhile_id [of py_isspace s] d by metis
  moreover have "\<forall>c \<in> set (takeWhile py_isspace s). py_isspace c"
    by (auto dest: set_takeWhileD)
  moreover have "\<forall>c \<in> set (rev (takeWhile py_isspace (rev ?d))). py_isspace c"
    by (auto dest: set_takeWhileD)
  ultimately show ?R using x by blast
qed

lemma lower_split:
  "lower s = a @ x # b \<longleftrightarrow>
     (\<exists>a' x' b'. s = a' @ x' # b' \<and> lower a' = a \<and> lower_char x' = x \<and> lower b' = b)"
proof
  assume "lower s = a @ x # b"
  then have "map lower_char s = a @ x # b" by (simp add: lower_def)
  then obtain a' r where r: "s = a' @ r" "a = map lower_char a'" "x # b = map lower_char r"
    by (auto simp: map_eq_append_conv)
  from r(3) obtain x' b' where "r = x' # b'" "x = lower_char x'" "b = map lower_char b'"
    by (auto simp: Cons_eq_map_conv)
  with r(1,2) have "s = a' @ x' # b' \<and> lower a' = a \<and> lower_char x' = x \<and> lower b' = b"
    by (simp add: lower_def)
  then show "\<exists>a' x' b'. s = a' @ x' # b' \<and> lower a' = a \<and> lower_char x' = x \<and> lower b' = b"
    by (intro exI)
next
  assume "\<exists>a' x' b'. s = a' @ x' # b' \<and> lower a' = a \<and> lower_char x' = x \<and> lower b' = b"
  then show "lower s = a @ x # b"
    by (auto simp: lower_def)
qed

lemma all_space_lower: "(\<forall>c \<in> set (lower s). py_isspace c) \<longleftrightarrow> (\<forall>c \<in> set s. py_isspace c)"
  by (simp add: lower_def isspace_lower_char)

lemma says_yes_iff:
  "strip (lower s) = ''y'' \<longleftrightarrow>
     (\<exists>a x b. s = a @ x # b \<and> (\<forall>c \<in> set a. py_isspace c) \<and> (\<forall>c \<in> set b. py_isspace c) \<and>
        (x = CHR ''y'' \<or> x = CHR ''Y''))"
  (is "?L \<longleftrightarrow> ?R")
proof
  assume ?L
  then obtain a b where h: "lower s = a @ CHR ''y'' # b" "\<forall>c \<in> set a. py_isspace c"
    "\<forall>c \<in> set b. py_isspace c"
    unfolding strip_single_iff by blast
  then obtain a' x' b' where s: "s = a' @ x' # b'" "lower a' = a" "lower_char x' = CHR ''y''" "lower b' = b"
    unfolding lower_split by blast
  with h have "\<forall>c \<in> set a'. py_isspace c" "\<forall>c \<in> set b'. py_isspace c"
    using all_space_lower by blast+
  with s show ?R unfolding lower_char_eq_y by blast
next
  assume ?R
  then obtain a x b where s: "s = a @ x # b" "\<forall>c \<in> set a. py_isspace c" "\<forall>c \<in> set b. py_isspace c"
        "x = CHR ''y'' \<or> x = CHR ''Y''"
    by blast
  have ny: "\<not> py_isspace (CHR ''y'')" by (simp add: py_isspace_def)
  have "lower s = lower a @ CHR ''y'' # lower b"
    using s(1,4) lower_char_eq_y [of x] by (simp add: lower_def)
  moreover have "\<forall>c \<in> set (lower a). py_isspace c" "\<forall>c \<in> set (lower b). py_isspace c"
    using s(2,3) all_space_lower by blast+
  ultimately show ?L unfolding strip_single_iff using ny by blast
qed

text \<open>
  \<^bold>\<open>C7\<close>. When the force variable of the environment is set (to a non-empty value),
  \<^verbatim>\<open>_confirm_action\<close> returns True and the console is not read. Otherwise it returns
  True at end of input, and on a response it returns True exactly when the response,
  lowered and stripped, is \<^verbatim>\<open>y\<close>: the response is one letter \<^verbatim>\<open>y\<close> or \<^verbatim>\<open>Y\<close> between
  white space. Every other response cancels; the absence of input consents.
\<close>

theorem confirm_action_cases:
  "(truthy (force_env w) \<longrightarrow> confirm_action n w = (True, w)) \<and>
   (\<not> truthy (force_env w) \<and> stdin w = [] \<longrightarrow> fst (confirm_action n w) = True) \<and>
   (\<not> truthy (force_env w) \<and> stdin w = response # rest \<longrightarrow>
      fst (confirm_action n w) = (strip (lower response) = ''y'') \<and>
      (fst (confirm_action n w) \<longleftrightarrow>
         (\<exists>a x b. response = a @ x # b \<and> (\<forall>c \<in> set a. py_isspace c) \<and>
            (\<forall>c \<in> set b. py_isspace c) \<and> (x = CHR ''y'' \<or> x = CHR ''Y''))))"
proof (intro conjI impI)
  assume "truthy (force_env w)"
  then show "confirm_action n w = (True, w)"
    by (simp add: confirm_action_def)
next
  assume "\<not> truthy (force_env w) \<and> stdin w = []"
  then show "fst (confirm_action n w) = True"
    by (simp add: confirm_action_def input_def)
next
  assume h: "\<not> truthy (force_env w) \<and> stdin w = response # rest"
  then show r: "fst (confirm_action n w) = (strip (lower response) = ''y'')"
    by (simp add: confirm_action_def input_def)
  show "fst (confirm_action n w) \<longleftrightarrow>
         (\<exists>a x b. response = a @ x # b \<and> (\<forall>c \<in> set a. py_isspace c) \<and>
            (\<forall>c \<in> set b. py_isspace c) \<and> (x = CHR ''y'' \<or> x = CHR ''Y''))"
    unfolding r by (rule says_yes_iff)
qed

theorem confirm_action_cases_witness:
  "confirm_action 1 base_world = (True, base_world) \<and>
   fst (confirm_action 1 (asking_world [])) = True \<and>
   fst (confirm_action 1 (asking_world ['' Y '', ''n''])) = True \<and>
   fst (confirm_action 1 (asking_world [''yes''])) = False \<and>
   fst (confirm_action 1 (asking_world [''''])) = False"
proof -
  have f: "truthy (force_env base_world)" by code_simp
  have e: "\<not> truthy (force_env (asking_world [])) \<and> stdin (asking_world []) = []"
    by code_simp
  have y: "\<not> truthy (force_env (asking_world ['' Y '', ''n''])) \<and>
           stdin (asking_world ['' Y '', ''n'']) = '' Y '' # [''n'']"
    by code_simp
  have n: "\<not> truthy (force_env (asking_world [''yes''])) \<and>
           stdin (asking_world [''yes'']) = ''yes'' # []"
    by code_simp
  have b: "\<not> truthy (force_env (asking_world [''''])) \<and>
           stdin (asking_world ['''']) = '''' # []"
    by code_simp
  have sy: "strip (lower '' Y '') = ''y''" by code_simp
  have sn: "strip (lower ''yes'') \<noteq> ''y''" by code_simp
  have sb: "strip (lower '''') \<noteq> ''y''" by code_simp
  from confirm_action_cases [of base_world 1] f
       confirm_action_cases [of "asking_world []" 1] e
       confirm_action_cases [of "asking_world ['' Y '', ''n'']" 1 "'' Y ''" "[''n'']"] y sy
       confirm_action_cases [of "asking_world [''yes'']" 1 "''yes''" "[]"] n sn
       confirm_action_cases [of "asking_world ['''']" 1 "''''" "[]"] b sb
  show ?thesis by simp
qed

lemma archive_session_empty:
  assumes "lookup_file w path = Some f" and "\<not> read_raises w path"
    and "\<forall>c \<in> set (content f). py_isspace c"
  shows "archive_session ar path w = (True, ar, logging (LogEmptyTranscript path) w)"
  using assms
  by (simp add: archive_session_def archive_body_def exists_file_def read_text_def strip_Nil_iff)

lemma archive_session_False_iff:
  "fst (archive_session ar path w) = False \<longleftrightarrow>
     (case lookup_file w path of
        None \<Rightarrow> True
      | Some f \<Rightarrow>
          read_raises w path \<or>
          ((\<exists>c \<in> set (content f). \<not> py_isspace c) \<and>
           (mkdir_raises w \<or> write_raises w (archive_name w path))))"
  by (auto simp: archive_session_def archive_body_def exists_file_def read_text_def strip_Nil_iff
      Let_def split: option.splits)

lemma archive_session_False_frame:
  "fst (archive_session ar path w) = False \<Longrightarrow>
     archives (snd (snd (archive_session ar path w))) = archives w \<and>
     entries (snd (snd (archive_session ar path w))) = entries w"
  by (auto simp: archive_session_def archive_body_def exists_file_def read_text_def logging_def
      Let_def split: option.splits sum.splits if_splits)

lemma archive_body_raises:
  "archive_body ar path w = Inl e \<Longrightarrow>
     archive_session ar path w =
       (False, ar\<lparr>failed_count := failed_count ar + 1\<rparr>, logging (LogArchiveError path) w)"
  by (simp add: archive_session_def)


text \<open>
  \<^bold>\<open>C8\<close>. For a file whose text is empty or white space only, \<^verbatim>\<open>archive_session\<close>
  returns True, and the world differs from the one before by one line of the log: no
  archive record is written. It returns False exactly when the file is missing, the read
  raises, or (the text not being blank) \<^verbatim>\<open>mkdir\<close> or the write of the record raises; the
  archive store and the directory are then as before. Every exception of the body is
  turned into the result False. True without a record and False are different results.
\<close>

theorem archive_session_outcomes:
  "(lookup_file w path = Some f \<and> \<not> read_raises w path \<and> (\<forall>c \<in> set (content f). py_isspace c) \<longrightarrow>
      archive_session ar path w = (True, ar, logging (LogEmptyTranscript path) w)) \<and>
   (fst (archive_session ar path w) = False \<longleftrightarrow>
      (case lookup_file w path of
         None \<Rightarrow> True
       | Some f \<Rightarrow>
           read_raises w path \<or>
           ((\<exists>c \<in> set (content f). \<not> py_isspace c) \<and>
            (mkdir_raises w \<or> write_raises w (archive_name w path))))) \<and>
   (fst (archive_session ar path w) = False \<longrightarrow>
      archives (snd (snd (archive_session ar path w))) = archives w \<and>
      entries (snd (snd (archive_session ar path w))) = entries w) \<and>
   (archive_body ar path w = Inl e \<longrightarrow>
      archive_session ar path w =
        (False, ar\<lparr>failed_count := failed_count ar + 1\<rparr>, logging (LogArchiveError path) w))"
proof (intro conjI impI)
  assume "lookup_file w path = Some f \<and> \<not> read_raises w path \<and> (\<forall>c \<in> set (content f). py_isspace c)"
  then show "archive_session ar path w = (True, ar, logging (LogEmptyTranscript path) w)"
    by (simp add: archive_session_empty)
next
  show "fst (archive_session ar path w) = False \<longleftrightarrow>
      (case lookup_file w path of
         None \<Rightarrow> True
       | Some f \<Rightarrow>
           read_raises w path \<or>
           ((\<exists>c \<in> set (content f). \<not> py_isspace c) \<and>
            (mkdir_raises w \<or> write_raises w (archive_name w path))))"
    by (rule archive_session_False_iff)
next
  assume h: "fst (archive_session ar path w) = False"
  from archive_session_False_frame [OF h]
  show "archives (snd (snd (archive_session ar path w))) = archives w"
    and "entries (snd (snd (archive_session ar path w))) = entries w"
    by simp_all
next
  assume "archive_body ar path w = Inl e"
  then show "archive_session ar path w =
        (False, ar\<lparr>failed_count := failed_count ar + 1\<rparr>, logging (LogArchiveError path) w)"
    by (rule archive_body_raises)
qed

theorem archive_session_outcomes_witness:
  "archive_session SuperMemoryArchiver ''blank.jsonl'' archive_world =
     (True, SuperMemoryArchiver, logging (LogEmptyTranscript ''blank.jsonl'') archive_world) \<and>
   archives (logging (LogEmptyTranscript ''blank.jsonl'') archive_world) = archives archive_world \<and>
   fst (archive_session SuperMemoryArchiver ''missing.jsonl'' archive_world) = False \<and>
   fst (archive_session SuperMemoryArchiver ''locked.jsonl'' archive_world) = False \<and>
   fst (archive_session SuperMemoryArchiver ''abc.jsonl'' archive_world) = True"
proof -
  have b: "lookup_file archive_world ''blank.jsonl'' = Some blank_file \<and>
           \<not> read_raises archive_world ''blank.jsonl'' \<and>
           (\<forall>c \<in> set (content blank_file). py_isspace c)"
    by code_simp
  have m: "(case lookup_file archive_world ''missing.jsonl'' of
         None \<Rightarrow> True
       | Some f \<Rightarrow>
           read_raises archive_world ''missing.jsonl'' \<or>
           ((\<exists>c \<in> set (content f). \<not> py_isspace c) \<and>
            (mkdir_raises archive_world \<or>
             write_raises archive_world (archive_name archive_world ''missing.jsonl''))))"
    by code_simp
  have l: "(case lookup_file archive_world ''locked.jsonl'' of
         None \<Rightarrow> True
       | Some f \<Rightarrow>
           read_raises archive_world ''locked.jsonl'' \<or>
           ((\<exists>c \<in> set (content f). \<not> py_isspace c) \<and>
            (mkdir_raises archive_world \<or>
             write_raises archive_world (archive_name archive_world ''locked.jsonl''))))"
    by code_simp
  have a: "\<not> (case lookup_file archive_world ''abc.jsonl'' of
         None \<Rightarrow> True
       | Some f \<Rightarrow>
           read_raises archive_world ''abc.jsonl'' \<or>
           ((\<exists>c \<in> set (content f). \<not> py_isspace c) \<and>
            (mkdir_raises archive_world \<or>
             write_raises archive_world (archive_name archive_world ''abc.jsonl''))))"
    by code_simp
  have g: "archives (logging (LogEmptyTranscript ''blank.jsonl'') archive_world) = archives archive_world"
    by (simp add: logging_def)
  from archive_session_outcomes [of archive_world "''blank.jsonl''" blank_file SuperMemoryArchiver] b
       archive_session_outcomes [of archive_world "''missing.jsonl''" blank_file SuperMemoryArchiver] m
       archive_session_outcomes [of archive_world "''locked.jsonl''" blank_file SuperMemoryArchiver] l
       archive_session_outcomes [of archive_world "''abc.jsonl''" blank_file SuperMemoryArchiver] a
       g
  show ?thesis by simp
qed

section \<open>The orchestrator\<close>

lemma same_env_refl: "same_env w w"
  by (simp add: same_env_def)

lemma same_env_trans: "same_env w w' \<Longrightarrow> same_env w' w'' \<Longrightarrow> same_env w w''"
  by (simp add: same_env_def)

lemma same_env_logging: "same_env w (logging e w)"
  by (simp add: same_env_def logging_def)

lemma same_env_marker: "same_env w w' \<Longrightarrow> marker_name w' n = marker_name w n"
  by (simp add: same_env_def marker_name_def)

lemma logging_fields:
  "entries (logging e w) = entries w"
  "archives (logging e w) = archives w"
  "log (logging e w) = log w @ [e]"
  "lookup_file (logging e w) n = lookup_file w n"
  "stdin (logging e w) = stdin w"
  "force_env (logging e w) = force_env w"
  by (simp_all add: logging_def lookup_file_def)

text \<open>archive_session: what it leaves alone.\<close>

lemma archive_session_frame:
  assumes "archive_session ar path w = (ok, ar', w')"
  shows "entries w' = entries w" and "same_env w w'" and "stdin w' = stdin w"
    and "\<exists>evs. log w' = log w @ evs \<and> List.map_filter outcome_name evs = [] \<and>
           List.map_filter deleted_name evs = []"
  using assms
  by (auto simp: archive_session_def archive_body_def logging_def same_env_def Let_def
      List.map_filter_def split: sum.splits if_splits)

lemma map_of_remove:
  "map_of (filter (\<lambda>(m, f). m \<noteq> n) xs) = (map_of xs)(n := None)"
  by (induction xs) (auto simp: fun_eq_iff)

lemma map_of_retime:
  "map_of (map (\<lambda>(m, f). if m = n then (m, g f) else (m, f)) xs) k =
     (if k = n then map_option g (map_of xs k) else map_of xs k)"
  by (induction xs) auto

lemma unlink_frame:
  assumes "unlink n w = Inr w'"
  shows "same_env w w'" and "log w' = log w" and "archives w' = archives w"
    and "lookup_file w' n = None" and "m \<noteq> n \<Longrightarrow> lookup_file w' m = lookup_file w m"
    and "stdin w' = stdin w"
proof -
  have w': "w' = w\<lparr>entries := filter (\<lambda>(m, f). m \<noteq> n) (entries w)\<rparr>"
    using assms by (simp add: unlink_def split: if_splits)
  show "same_env w w'" "log w' = log w" "archives w' = archives w" "stdin w' = stdin w"
    by (simp_all add: w' same_env_def)
  show "lookup_file w' n = None" "m \<noteq> n \<Longrightarrow> lookup_file w' m = lookup_file w m"
    by (simp_all add: w' lookup_file_def map_of_remove)
qed

lemma touch_frame:
  assumes "touch n w = Inr w'"
  shows "same_env w w'" and "log w' = log w" and "archives w' = archives w"
    and "m \<noteq> n \<Longrightarrow> lookup_file w' m = lookup_file w m"
    and "stdin w' = stdin w"
proof -
  have "w' = w\<lparr>entries := map (\<lambda>(m, f). if m = n then (m, f\<lparr>st_mtime := now w\<rparr>) else (m, f))
                                  (entries w)\<rparr> \<or>
        w' = w\<lparr>entries := entries w @
                  [(n, \<lparr>content = [], st_size = 0, st_mtime = now w, st_ctime = now w\<rparr>)]\<rparr>"
    using assms by (auto simp: touch_def split: if_splits)
  then show "same_env w w'" "log w' = log w" "archives w' = archives w" "stdin w' = stdin w"
    "m \<noteq> n \<Longrightarrow> lookup_file w' m = lookup_file w m"
    by (auto simp: same_env_def lookup_file_def map_of_retime map_add_def split: option.splits)
qed

lemma processed_append: "processed (a @ b) = processed a @ processed b"
  by (simp add: processed_def List.map_filter_def)

lemma deleted_log_append: "deleted_log (a @ b) = deleted_log a @ deleted_log b"
  by (simp add: deleted_log_def List.map_filter_def)

lemma marker_name_neq: "marker_name w n \<noteq> n"
  by (simp add: marker_name_def)

lemma marker_name_inj: "marker_name w m = marker_name w n \<longleftrightarrow> m = n"
  by (simp add: marker_name_def)

lemma marker_name_not_jsonl: "suffix ''.jsonl'' m \<Longrightarrow> marker_name w n \<noteq> m"
proof
  assume s: "suffix ''.jsonl'' m" and e: "marker_name w n = m"
  have "last (marker_name w n) = CHR ''Z''"
    by (simp add: marker_name_def)
  moreover from s obtain p where "m = p @ ''.jsonl''"
    by (auto simp: suffix_def)
  then have "last m = CHR ''l''" by simp
  ultimately show False using e by simp
qed

text \<open>The outcomes of the second half of a step.\<close>

lemma delete_session_outcome:
  assumes "delete_session j n w = (j', w')"
  shows "(\<exists>f. lookup_file w n = Some f \<and> lookup_file w' n = None \<and>
            stats_of j' = (stats_of j)\<lparr>deleted := deleted (stats_of j) + 1,
               space_reclaimed_bytes := space_reclaimed_bytes (stats_of j) + st_size f\<rparr> \<and>
            log w' = log w @ [LogDeleted n]) \<or>
         (stats_of j' = (stats_of j)\<lparr>failed := failed (stats_of j) + 1\<rparr> \<and>
          log w' = log w @ [LogProcessFailed n])"
proof (cases "stat w n")
  case (Inl e)
  with assms show ?thesis
    by (auto simp: delete_session_def count_failed_def logging_def)
next
  case (Inr f)
  then have f: "lookup_file w n = Some f"
    by (auto simp: stat_def split: if_splits option.splits)
  show ?thesis
  proof (cases "unlink n w")
    case (Inl e)
    with Inr assms show ?thesis
      by (auto simp: delete_session_def count_failed_def logging_def)
  next
    case u: (Inr w1)
    show ?thesis
    proof (cases "touch (marker_name w1 n) w1")
      case (Inl e)
      with Inr u assms unlink_frame(2) [OF u] show ?thesis
        by (auto simp: delete_session_def count_failed_def logging_def Let_def)
    next
      case t: (Inr w2)
      have "lookup_file w2 n = None"
        using touch_frame(4) [OF t, of n] unlink_frame(4) [OF u] marker_name_neq [of w1 n]
        by simp
      moreover have "log w2 = log w"
        using touch_frame(2) [OF t] unlink_frame(2) [OF u] by simp
      ultimately show ?thesis
        using Inr u t assms f
        by (auto simp: delete_session_def logging_def lookup_file_def Let_def)
    qed
  qed
qed

lemma delete_session_frame:
  assumes "delete_session j n w = (j', w')"
  shows "same_env w w'" and "stdin w' = stdin w" and "archives w' = archives w"
    and "m \<noteq> n \<Longrightarrow> m \<noteq> marker_name w n \<Longrightarrow> lookup_file w' m = lookup_file w m"
    and "archive_enabled j' = archive_enabled j" and "archiver_of j' = archiver_of j"
proof -
  have "same_env w w' \<and> stdin w' = stdin w \<and> archives w' = archives w \<and>
        (m \<noteq> n \<longrightarrow> m \<noteq> marker_name w n \<longrightarrow> lookup_file w' m = lookup_file w m) \<and>
        archive_enabled j' = archive_enabled j \<and> archiver_of j' = archiver_of j"
  proof (cases "stat w n")
    case (Inl e)
    with assms show ?thesis
      by (auto simp: delete_session_def count_failed_def logging_fields same_env_logging)
  next
    case (Inr f)
    show ?thesis
    proof (cases "unlink n w")
      case (Inl e)
      with Inr assms show ?thesis
        by (auto simp: delete_session_def count_failed_def logging_fields same_env_logging)
    next
      case u: (Inr w1)
      note uf = unlink_frame [OF u]
      show ?thesis
      proof (cases "touch (marker_name w1 n) w1")
        case (Inl e)
        with Inr u assms have "w' = logging (LogProcessFailed n) w1" "j' = count_failed j"
          by (auto simp: delete_session_def Let_def)
        then show ?thesis
          using uf same_env_trans [OF uf(1) same_env_logging]
          by (auto simp: logging_fields count_failed_def)
      next
        case t: (Inr w2)
        note tf = touch_frame [OF t]
        from Inr u t assms have w': "w' = logging (LogDeleted n) w2"
          and j': "archive_enabled j' = archive_enabled j" "archiver_of j' = archiver_of j"
          by (auto simp: delete_session_def Let_def)
        have "same_env w w'"
          unfolding w'
          using same_env_trans [OF same_env_trans [OF uf(1) tf(1)] same_env_logging] .
        moreover have "m \<noteq> n \<longrightarrow> m \<noteq> marker_name w n \<longrightarrow> lookup_file w' m = lookup_file w m"
          unfolding w' using uf(5) [of m] tf(4) [of m] same_env_marker [OF uf(1), of n]
          by (simp add: logging_fields)
        ultimately show ?thesis
          using j' uf tf by (simp add: w' logging_fields)
      qed
    qed
  qed
  then show "same_env w w'" "stdin w' = stdin w" "archives w' = archives w"
    "m \<noteq> n \<Longrightarrow> m \<noteq> marker_name w n \<Longrightarrow> lookup_file w' m = lookup_file w m"
    "archive_enabled j' = archive_enabled j" "archiver_of j' = archiver_of j"
    by simp_all
qed

lemma same_env_archive_name: "same_env w w' \<Longrightarrow> archive_name w' n = archive_name w n"
  by (simp add: same_env_def archive_name_def)

lemma archive_result_cong:
  assumes "same_env w w'" and "lookup_file w' n = lookup_file w n"
  shows "fst (archive_session ar' n w') = fst (archive_session ar n w)"
proof -
  have "fst (archive_session ar' n w') = False \<longleftrightarrow> fst (archive_session ar n w) = False"
    unfolding archive_session_False_iff same_env_archive_name [OF assms(1)] assms(2)
    using assms(1) by (simp add: same_env_def split: option.splits)
  then show ?thesis by auto
qed

text \<open>One step of the loop of \<^verbatim>\<open>run\<close>, split at the archive.\<close>

lemma process_session_unfold:
  assumes "process_session j s w = (j', w')"
  obtains (no_archive) "\<not> archive_enabled j" "delete_session j (file_name s) w = (j', w')"
  | (archive_failed) ar w1 where "archive_enabled j"
      "archive_session (archiver_of j) (file_name s) w = (False, ar, w1)"
      "j' = count_failed (j\<lparr>archiver_of := ar\<rparr>)" "w' = logging (LogArchiveFailed (file_name s)) w1"
  | (archived) ar w1 where "archive_enabled j"
      "archive_session (archiver_of j) (file_name s) w = (True, ar, w1)"
      "delete_session (j\<lparr>archiver_of := ar,
          stats_of := (stats_of j)\<lparr>archived := archived (stats_of j) + 1\<rparr>\<rparr>) (file_name s) w1 = (j', w')"
proof (cases "archive_enabled j")
  case False
  with assms have "delete_session j (file_name s) w = (j', w')"
    by (simp add: process_session_def)
  with False show ?thesis by (rule no_archive)
next
  case True
  obtain ok ar w1 where a: "archive_session (archiver_of j) (file_name s) w = (ok, ar, w1)"
    by (cases "archive_session (archiver_of j) (file_name s) w") auto
  show ?thesis
  proof (cases ok)
    case False
    with True a assms show ?thesis
      by (intro archive_failed [of ar w1]) (auto simp: process_session_def Let_def)
  next
    case ok: True
    with True a assms show ?thesis
      by (intro archived [of ar w1]) (auto simp: process_session_def Let_def)
  qed
qed

lemma processed_single [simp]:
  "processed [LogDeleted n] = [n]" "processed [LogProcessFailed n] = [n]"
  "processed [LogArchiveFailed n] = [n]" "processed [] = []"
  by (simp_all add: processed_def List.map_filter_def)

lemma deleted_log_single [simp]:
  "deleted_log [LogDeleted n] = [n]" "deleted_log [LogProcessFailed n] = []"
  "deleted_log [LogArchiveFailed n] = []" "deleted_log [] = []"
  by (simp_all add: deleted_log_def List.map_filter_def)

lemma process_session_frame:
  assumes "process_session j s w = (j', w')"
  shows "same_env w w'" and "stdin w' = stdin w"
    and "m \<noteq> file_name s \<Longrightarrow> m \<noteq> marker_name w (file_name s) \<Longrightarrow>
           lookup_file w' m = lookup_file w m"
    and "archive_enabled j' = archive_enabled j"
proof -
  have "same_env w w' \<and> stdin w' = stdin w \<and>
        (m \<noteq> file_name s \<longrightarrow> m \<noteq> marker_name w (file_name s) \<longrightarrow>
           lookup_file w' m = lookup_file w m) \<and>
        archive_enabled j' = archive_enabled j"
    using assms
  proof (cases rule: process_session_unfold)
  case no_archive
  from delete_session_frame [OF no_archive(2)] show ?thesis by simp
next
  case (archive_failed ar w1)
  from archive_session_frame [OF archive_failed(2)] archive_failed(3,4)
  show ?thesis
    using same_env_trans [OF _ same_env_logging]
    by (auto simp: logging_fields count_failed_def lookup_file_def)
next
  case (archived ar w1)
  note af = archive_session_frame [OF archived(2)]
  note df = delete_session_frame [OF archived(3)]
  have "lookup_file w1 = lookup_file w"
    using af(1) by (simp add: lookup_file_def fun_eq_iff)
  then show ?thesis
    using af df same_env_trans [OF af(2) df(1)] same_env_marker [OF af(2)]
    by simp
  qed
  then show "same_env w w'" "stdin w' = stdin w"
    "m \<noteq> file_name s \<Longrightarrow> m \<noteq> marker_name w (file_name s) \<Longrightarrow>
           lookup_file w' m = lookup_file w m"
    "archive_enabled j' = archive_enabled j"
    by simp_all
qed

lemma process_session_archive_failed:
  assumes "process_session j s w = (j', w')" and "archive_enabled j"
    and "\<not> fst (archive_session ar0 (file_name s) w)"
  shows "entries w' = entries w" and "archives w' = archives w"
    and "stats_of j' = (stats_of j)\<lparr>failed := failed (stats_of j) + 1\<rparr>"
proof -
  have "entries w' = entries w \<and> archives w' = archives w \<and>
        stats_of j' = (stats_of j)\<lparr>failed := failed (stats_of j) + 1\<rparr>"
    using assms(1)
  proof (cases rule: process_session_unfold)
  case no_archive
  with assms(2) show ?thesis by simp
next
  case (archive_failed ar w1)
  have "fst (archive_session (archiver_of j) (file_name s) w) = False"
    using archive_failed(2) by simp
  from archive_session_False_frame [OF this] archive_failed
  show ?thesis
    by (simp add: logging_fields count_failed_def)
next
  case (archived ar w1)
  then have "fst (archive_session (archiver_of j) (file_name s) w)" by simp
  with assms(3) archive_result_cong [OF same_env_refl refl, of ar0 "file_name s" w "archiver_of j"]
  show ?thesis by simp
  qed
  then show "entries w' = entries w" "archives w' = archives w"
    "stats_of j' = (stats_of j)\<lparr>failed := failed (stats_of j) + 1\<rparr>"
    by simp_all
qed

lemma process_session_outcome:
  assumes "process_session j s w = (j', w')"
  shows "\<exists>evs. log w' = log w @ evs \<and> processed evs = [file_name s] \<and>
           failed (stats_of j) \<le> failed (stats_of j') \<and>
           ((deleted_log evs = [file_name s] \<and>
             (\<exists>f. lookup_file w (file_name s) = Some f \<and>
                  space_reclaimed_bytes (stats_of j') =
                    space_reclaimed_bytes (stats_of j) + st_size f) \<and>
             deleted (stats_of j') = deleted (stats_of j) + 1 \<and>
             lookup_file w' (file_name s) = None) \<or>
            (deleted_log evs = [] \<and>
             space_reclaimed_bytes (stats_of j') = space_reclaimed_bytes (stats_of j) \<and>
             deleted (stats_of j') = deleted (stats_of j)))"
  using assms
proof (cases rule: process_session_unfold)
  case no_archive
  from delete_session_outcome [OF no_archive(2)] show ?thesis
    by (elim disjE exE conjE) (rule exI [of _ "[LogDeleted (file_name s)]"], simp,
        rule exI [of _ "[LogProcessFailed (file_name s)]"], simp)
next
  case (archive_failed ar w1)
  from archive_session_frame(4) [OF archive_failed(2)]
  obtain evs where evs: "log w1 = log w @ evs" "List.map_filter outcome_name evs = []"
    "List.map_filter deleted_name evs = []"
    by blast
  have "log w' = log w @ (evs @ [LogArchiveFailed (file_name s)])"
    using archive_failed(4) evs(1) by (simp add: logging_fields)
  moreover have "processed (evs @ [LogArchiveFailed (file_name s)]) = [file_name s]"
    "deleted_log (evs @ [LogArchiveFailed (file_name s)]) = []"
    using evs(2,3) by (simp_all add: processed_def deleted_log_def List.map_filter_def)
  moreover have "stats_of j' = (stats_of j)\<lparr>failed := failed (stats_of j) + 1\<rparr>"
    using archive_failed(3) by (simp add: count_failed_def)
  ultimately show ?thesis
    by (intro exI [of _ "evs @ [LogArchiveFailed (file_name s)]"]) simp
next
  case (archived ar w1)
  from archive_session_frame [OF archived(2)]
  obtain evs where evs: "log w1 = log w @ evs" "List.map_filter outcome_name evs = []"
    "List.map_filter deleted_name evs = []" and ent: "entries w1 = entries w"
    by blast
  have e0: "processed evs = []" "deleted_log evs = []"
    using evs(2,3) by (simp_all add: processed_def deleted_log_def)
  have lk: "lookup_file w1 (file_name s) = lookup_file w (file_name s)"
    using ent by (simp add: lookup_file_def)
  from delete_session_outcome [OF archived(3)] show ?thesis
  proof (elim disjE exE conjE)
    fix f
    assume "lookup_file w1 (file_name s) = Some f" "lookup_file w' (file_name s) = None"
      "stats_of j' = (stats_of (j\<lparr>archiver_of := ar,
          stats_of := (stats_of j)\<lparr>archived := archived (stats_of j) + 1\<rparr>\<rparr>))
         \<lparr>deleted := deleted (stats_of (j\<lparr>archiver_of := ar,
             stats_of := (stats_of j)\<lparr>archived := archived (stats_of j) + 1\<rparr>\<rparr>)) + 1,
          space_reclaimed_bytes := space_reclaimed_bytes (stats_of (j\<lparr>archiver_of := ar,
             stats_of := (stats_of j)\<lparr>archived := archived (stats_of j) + 1\<rparr>\<rparr>)) + st_size f\<rparr>"
      "log w' = log w1 @ [LogDeleted (file_name s)]"
    then show ?thesis
      using evs(1) e0 lk
      by (intro exI [of _ "evs @ [LogDeleted (file_name s)]"])
         (simp add: processed_append deleted_log_append)
  next
    assume "stats_of j' = (stats_of (j\<lparr>archiver_of := ar,
          stats_of := (stats_of j)\<lparr>archived := archived (stats_of j) + 1\<rparr>\<rparr>))
         \<lparr>failed := failed (stats_of (j\<lparr>archiver_of := ar,
             stats_of := (stats_of j)\<lparr>archived := archived (stats_of j) + 1\<rparr>\<rparr>)) + 1\<rparr>"
      "log w' = log w1 @ [LogProcessFailed (file_name s)]"
    then show ?thesis
      using evs(1) e0
      by (intro exI [of _ "evs @ [LogProcessFailed (file_name s)]"])
         (simp add: processed_append deleted_log_append)
  qed
qed

lemma process_all_frame:
  assumes "process_all rs j w = (j', w')"
  shows "same_env w w' \<and> stdin w' = stdin w \<and> archive_enabled j' = archive_enabled j \<and>
         failed (stats_of j) \<le> failed (stats_of j') \<and>
         (m \<notin> file_name ` set rs \<longrightarrow> m \<notin> marker_name w ` file_name ` set rs \<longrightarrow>
            lookup_file w' m = lookup_file w m)"
  using assms
proof (induction rs arbitrary: j w)
  case Nil
  then show ?case by (simp add: same_env_refl)
next
  case (Cons r rs)
  obtain j1 w1 where step: "process_session j r w = (j1, w1)"
    by (cases "process_session j r w") auto
  with Cons.prems have rest: "process_all rs j1 w1 = (j', w')" by simp
  note sf = process_session_frame [OF step]
  note ih = Cons.IH [OF rest]
  from process_session_outcome [OF step] have mono: "failed (stats_of j) \<le> failed (stats_of j1)"
    by blast
  have "same_env w w'" using same_env_trans [OF sf(1)] ih by blast
  moreover have "m \<notin> file_name ` set (r # rs) \<longrightarrow> m \<notin> marker_name w ` file_name ` set (r # rs) \<longrightarrow>
            lookup_file w' m = lookup_file w m"
    using sf(3) [of m] ih same_env_marker [OF sf(1)] by (auto simp: image_iff)
  ultimately show ?case using sf ih mono by simp
qed

lemma process_all_processed:
  assumes "process_all rs j w = (j', w')"
  shows "\<exists>evs. log w' = log w @ evs \<and> processed evs = map file_name rs"
  using assms
proof (induction rs arbitrary: j w)
  case Nil
  then show ?case by simp
next
  case (Cons r rs)
  obtain j1 w1 where step: "process_session j r w = (j1, w1)"
    by (cases "process_session j r w") auto
  with Cons.prems have rest: "process_all rs j1 w1 = (j', w')" by simp
  from process_session_outcome [OF step] obtain e1 where
    e1: "log w1 = log w @ e1" "processed e1 = [file_name r]" by blast
  from Cons.IH [OF rest] obtain e2 where
    e2: "log w' = log w1 @ e2" "processed e2 = map file_name rs" by blast
  from e1 e2 have "log w' = log w @ (e1 @ e2) \<and> processed (e1 @ e2) = map file_name (r # rs)"
    by (simp add: processed_append)
  then show ?case by blast
qed

lemma process_all_reclaimed:
  assumes "process_all rs j w = (j', w')"
    and "distinct (map file_name rs)"
    and "\<forall>r \<in> set rs. suffix ''.jsonl'' (file_name r)"
  shows "\<exists>evs. log w' = log w @ evs \<and>
           space_reclaimed_bytes (stats_of j') =
             space_reclaimed_bytes (stats_of j) + sum_list (map (size_on_disk w) (deleted_log evs)) \<and>
           deleted (stats_of j') = deleted (stats_of j) + length (deleted_log evs) \<and>
           set (deleted_log evs) \<subseteq> file_name ` set rs \<and>
           (\<forall>n \<in> set (deleted_log evs). lookup_file w n \<noteq> None \<and> lookup_file w' n = None)"
  using assms
proof (induction rs arbitrary: j w)
  case Nil
  then show ?case by simp
next
  case (Cons r rs)
  obtain j1 w1 where step: "process_session j r w = (j1, w1)"
    by (cases "process_session j r w") auto
  with Cons.prems have rest: "process_all rs j1 w1 = (j', w')" by simp
  note sf = process_session_frame [OF step]
  have d: "distinct (map file_name rs)" and sfx: "\<forall>r \<in> set rs. suffix ''.jsonl'' (file_name r)"
    and rn: "file_name r \<notin> file_name ` set rs" and rs: "suffix ''.jsonl'' (file_name r)"
    using Cons.prems(2,3) by auto
  from Cons.IH [OF rest d sfx] obtain e2 where e2: "log w' = log w1 @ e2"
    "space_reclaimed_bytes (stats_of j') =
       space_reclaimed_bytes (stats_of j1) + sum_list (map (size_on_disk w1) (deleted_log e2))"
    "deleted (stats_of j') = deleted (stats_of j1) + length (deleted_log e2)"
    "set (deleted_log e2) \<subseteq> file_name ` set rs"
    "\<forall>n \<in> set (deleted_log e2). lookup_file w1 n \<noteq> None \<and> lookup_file w' n = None"
    by blast
  have keep: "lookup_file w1 n = lookup_file w n" if "n \<in> file_name ` set rs" for n
  proof -
    from that rn have "n \<noteq> file_name r" by blast
    moreover from that sfx have "suffix ''.jsonl'' n" by blast
    then have "n \<noteq> marker_name w (file_name r)"
      using marker_name_not_jsonl [of n w "file_name r"] by blast
    ultimately show ?thesis using sf(3) by simp
  qed
  have sizes: "map (size_on_disk w1) (deleted_log e2) = map (size_on_disk w) (deleted_log e2)"
  proof (rule map_cong [OF refl])
    fix n assume "n \<in> set (deleted_log e2)"
    with e2(4) have "lookup_file w1 n = lookup_file w n" using keep by blast
    then show "size_on_disk w1 n = size_on_disk w n" by (simp add: size_on_disk_def)
  qed
  have later: "lookup_file w' (file_name r) = lookup_file w1 (file_name r)"
  proof -
    have "\<forall>x. file_name r \<noteq> marker_name w1 x"
      using marker_name_not_jsonl [OF rs] by metis
    then have "file_name r \<notin> marker_name w1 ` file_name ` set rs"
      by (simp add: image_iff)
    with rn process_all_frame [OF rest, of "file_name r"] show ?thesis by simp
  qed
  from process_session_outcome [OF step] obtain e1 where e1: "log w1 = log w @ e1"
    and alt: "(deleted_log e1 = [file_name r] \<and>
             (\<exists>f. lookup_file w (file_name r) = Some f \<and>
                  space_reclaimed_bytes (stats_of j1) =
                    space_reclaimed_bytes (stats_of j) + st_size f) \<and>
             deleted (stats_of j1) = deleted (stats_of j) + 1 \<and>
             lookup_file w1 (file_name r) = None) \<or>
            (deleted_log e1 = [] \<and>
             space_reclaimed_bytes (stats_of j1) = space_reclaimed_bytes (stats_of j) \<and>
             deleted (stats_of j1) = deleted (stats_of j))"
    by blast
  have lg: "log w' = log w @ (e1 @ e2)" using e1 e2(1) by simp
  have sub: "\<forall>n \<in> set (deleted_log e2). lookup_file w n \<noteq> None \<and> lookup_file w' n = None"
  proof
    fix n assume n: "n \<in> set (deleted_log e2)"
    with e2(4) have "lookup_file w1 n = lookup_file w n" using keep by blast
    with e2(5) n show "lookup_file w n \<noteq> None \<and> lookup_file w' n = None" by metis
  qed
  from alt show ?case
  proof
    assume a: "deleted_log e1 = [file_name r] \<and>
             (\<exists>f. lookup_file w (file_name r) = Some f \<and>
                  space_reclaimed_bytes (stats_of j1) =
                    space_reclaimed_bytes (stats_of j) + st_size f) \<and>
             deleted (stats_of j1) = deleted (stats_of j) + 1 \<and>
             lookup_file w1 (file_name r) = None"
    then obtain f where f: "lookup_file w (file_name r) = Some f"
      "space_reclaimed_bytes (stats_of j1) = space_reclaimed_bytes (stats_of j) + st_size f"
      by blast
    have "size_on_disk w (file_name r) = st_size f"
      using f(1) by (simp add: size_on_disk_def)
    with a f e2 sizes sub later lg show ?thesis
      by (intro exI [of _ "e1 @ e2"]) (auto simp: deleted_log_append)
  next
    assume "deleted_log e1 = [] \<and>
             space_reclaimed_bytes (stats_of j1) = space_reclaimed_bytes (stats_of j) \<and>
             deleted (stats_of j1) = deleted (stats_of j)"
    with e2 sizes sub lg show ?thesis
      by (intro exI [of _ "e1 @ e2"]) (auto simp: deleted_log_append)
  qed
qed

lemma process_all_archive_failed:
  assumes "process_all rs j w = (j', w')"
    and "archive_enabled j"
    and "distinct (map file_name rs)"
    and "\<forall>r \<in> set rs. suffix ''.jsonl'' (file_name r)"
    and "s \<in> set rs"
    and "\<not> fst (archive_session ar (file_name s) w)"
  shows "lookup_file w' (file_name s) = lookup_file w (file_name s) \<and>
         lookup_file w' (marker_name w (file_name s)) = lookup_file w (marker_name w (file_name s)) \<and>
         failed (stats_of j) < failed (stats_of j')"
  using assms
proof (induction rs arbitrary: j w)
  case Nil
  then show ?case by simp
next
  case (Cons r rs)
  let ?n = "file_name s"
  obtain j1 w1 where step: "process_session j r w = (j1, w1)"
    by (cases "process_session j r w") auto
  with Cons.prems(1) have rest: "process_all rs j1 w1 = (j', w')" by simp
  note sf = process_session_frame [OF step]
  note pf = process_all_frame [OF rest]
  have d: "distinct (map file_name rs)" and sfx: "\<forall>r \<in> set rs. suffix ''.jsonl'' (file_name r)"
    and rn: "file_name r \<notin> file_name ` set rs" and rj: "suffix ''.jsonl'' (file_name r)"
    and sj: "suffix ''.jsonl'' ?n"
    using Cons.prems(3,4,5) by auto
  have en1: "archive_enabled j1" using sf(4) Cons.prems(2) by simp
  have mk1: "marker_name w1 = marker_name w"
    using same_env_marker [OF sf(1)] by (simp add: fun_eq_iff)
  have nm: "\<forall>x. ?n \<noteq> marker_name w x" "\<forall>x. file_name r \<noteq> marker_name w x"
    using marker_name_not_jsonl [OF sj] marker_name_not_jsonl [OF rj] by metis+
  show ?case
  proof (cases "s = r")
    case True
    from process_session_archive_failed [OF step Cons.prems(2), of ar] Cons.prems(6) True
    have e: "entries w1 = entries w" and f: "failed (stats_of j1) = failed (stats_of j) + 1"
      by simp_all
    have "?n \<notin> file_name ` set rs" using True rn by simp
    moreover have "?n \<notin> marker_name w1 ` file_name ` set rs"
      using nm(1) mk1 by (simp add: image_iff)
    ultimately have a: "lookup_file w' ?n = lookup_file w1 ?n"
      using pf [of ?n] by simp
    have "marker_name w ?n \<notin> file_name ` set rs"
      using sfx marker_name_not_jsonl [of _ w ?n] by (auto simp: image_iff)
    moreover have "marker_name w ?n \<notin> marker_name w1 ` file_name ` set rs"
      using \<open>?n \<notin> file_name ` set rs\<close> mk1 by (auto simp: image_iff marker_name_inj)
    ultimately have b: "lookup_file w' (marker_name w ?n) = lookup_file w1 (marker_name w ?n)"
      using pf [of "marker_name w ?n"] by simp
    from a b e f pf [of ?n] show ?thesis
      by (simp add: lookup_file_def)
  next
    case False
    with Cons.prems(5) have s: "s \<in> set rs" by simp
    with rn have ne: "?n \<noteq> file_name r" by (metis imageI)
    have k1: "lookup_file w1 ?n = lookup_file w ?n"
      using sf(3) [of ?n] ne nm(1) by simp
    have "marker_name w ?n \<noteq> file_name r"
      using nm(2) by metis
    moreover have "marker_name w ?n \<noteq> marker_name w (file_name r)"
      using ne by (simp add: marker_name_inj)
    ultimately have k2: "lookup_file w1 (marker_name w ?n) = lookup_file w (marker_name w ?n)"
      using sf(3) [of "marker_name w ?n"] by simp
    have "\<not> fst (archive_session ar ?n w1)"
      using archive_result_cong [OF sf(1) k1, of ar ar] Cons.prems(6) by simp
    from Cons.IH [OF rest en1 d sfx s this]
    have "lookup_file w' ?n = lookup_file w1 ?n"
      "lookup_file w' (marker_name w1 ?n) = lookup_file w1 (marker_name w1 ?n)"
      "failed (stats_of j1) < failed (stats_of j')"
      by simp_all
    moreover from process_session_outcome [OF step]
    have "failed (stats_of j) \<le> failed (stats_of j1)" by blast
    ultimately show ?thesis using k1 k2 mk1 by simp
  qed
qed

lemma counted_fields:
  "dry_run (counted j w) = dry_run j"
  "archive_enabled (counted j w) = archive_enabled j"
  "archiver_of (counted j w) = archiver_of j"
  "archived (stats_of (counted j w)) = archived (stats_of j)"
  "deleted (stats_of (counted j w)) = deleted (stats_of j)"
  "failed (stats_of (counted j w)) = failed (stats_of j)"
  "space_reclaimed_bytes (stats_of (counted j w)) = space_reclaimed_bytes (stats_of j)"
  "scanned (stats_of (counted j w)) = length (scan_sessions (analyzer_of j) w)"
  "orphaned (stats_of (counted j w)) = length (orphans_of j w)"
  by (simp_all add: counted_def)

lemma fold_log_orphan:
  "fold log_orphan rs w =
     w\<lparr>log := log w @ map (\<lambda>s. LogOrphan (file_name s) (size_bytes s) (modified s) (reason s)) rs\<rparr>"
  by (induction rs arbitrary: w) (simp_all add: log_orphan_def logging_def)

lemma processed_orphan_lines:
  "processed (map (\<lambda>s. LogOrphan (file_name s) (size_bytes s) (modified s) (reason s)) rs) = []"
  "deleted_log (map (\<lambda>s. LogOrphan (file_name s) (size_bytes s) (modified s) (reason s)) rs) = []"
  by (induction rs) (simp_all add: processed_def deleted_log_def List.map_filter_def)

lemma confirm_action_frame:
  assumes "confirm_action k w = (ok, w')"
  shows "entries w' = entries w" and "same_env w w'" and "archives w' = archives w"
    and "\<exists>evs. log w' = log w @ evs \<and> processed evs = [] \<and> deleted_log evs = []"
  using assms
  by (auto simp: confirm_action_def input_def logging_def same_env_def processed_def
      deleted_log_def List.map_filter_def split: if_splits list.splits)

lemma confirm_action_log_blind:
  "fst (confirm_action k (w\<lparr>log := l\<rparr>)) = fst (confirm_action k w)"
  by (simp add: confirm_action_def input_def logging_def split: list.splits)

lemma confirm_action_after_listing:
  "fst (confirm_action k (fold log_orphan rs w)) = fst (confirm_action k w)"
  by (simp add: fold_log_orphan confirm_action_log_blind)

lemma run_cases:
  assumes "run j w = (j', w')"
  obtains (nothing) "orphans_of j w = []" "j' = counted j w" "w' = logging LogNothingToDo w"
  | (dry) "orphans_of j w \<noteq> []" "dry_run j" "j' = counted j w"
      "w' = logging LogDryRun (fold log_orphan (orphans_of j w) w)"
  | (cancelled) w1 where "orphans_of j w \<noteq> []" "\<not> dry_run j"
      "confirm_action (length (orphans_of j w)) (fold log_orphan (orphans_of j w) w) = (False, w1)"
      "j' = counted j w" "w' = logging LogCancelled w1"
  | (processing) w1 w2 where "orphans_of j w \<noteq> []" "\<not> dry_run j"
      "confirm_action (length (orphans_of j w)) (fold log_orphan (orphans_of j w) w) = (True, w1)"
      "process_all (orphans_of j w) (counted j w) w1 = (j', w2)" "w' = logging LogSummary w2"
proof -
  let ?os = "orphans_of j w"
  let ?w0 = "fold log_orphan ?os w"
  have r: "run j w =
     (if ?os = [] then (counted j w, logging LogNothingToDo w)
      else if dry_run j then (counted j w, logging LogDryRun ?w0)
      else case confirm_action (length ?os) ?w0 of
             (False, w1) \<Rightarrow> (counted j w, logging LogCancelled w1)
           | (True, w1) \<Rightarrow>
               (case process_all ?os (counted j w) w1 of
                  (j2, w2) \<Rightarrow> (j2, logging LogSummary w2)))"
    by (simp add: run_def counted_def orphans_of_def Let_def
        cong: prod.case_cong bool.case_cong split: prod.splits bool.splits)
  show ?thesis
  proof (cases "?os = []")
    case True
    have "j' = counted j w" "w' = logging LogNothingToDo w"
      using True assms r by simp_all
    with True show ?thesis by (rule nothing)
  next
    case ne: False
    show ?thesis
    proof (cases "dry_run j")
      case True
      have "j' = counted j w" "w' = logging LogDryRun ?w0"
        using True ne assms r by simp_all
      with ne True show ?thesis by (rule dry)
    next
      case nd: False
      obtain ok w1 where c: "confirm_action (length ?os) ?w0 = (ok, w1)"
        by (cases "confirm_action (length ?os) ?w0") auto
      show ?thesis
      proof (cases ok)
        case False
        have "j' = counted j w" "w' = logging LogCancelled w1"
          using False ne nd c assms r by simp_all
        moreover have "confirm_action (length ?os) ?w0 = (False, w1)"
          using c False by simp
        ultimately show ?thesis using ne nd by (intro cancelled [of w1])
      next
        case True
        obtain j2 w2 where p: "process_all ?os (counted j w) w1 = (j2, w2)"
          by (cases "process_all ?os (counted j w) w1") auto
        have "j' = j2" "w' = logging LogSummary w2"
          using True ne nd c p assms r by simp_all
        with p have "process_all ?os (counted j w) w1 = (j', w2)" "w' = logging LogSummary w2"
          by simp_all
        moreover have "confirm_action (length ?os) ?w0 = (True, w1)"
          using c True by simp
        ultimately show ?thesis using ne nd by (intro processing [of w1 w2])
      qed
    qed
  qed
qed

lemma orphans_of_facts:
  assumes "r \<in> set (orphans_of j w)"
  shows "suffix ''.jsonl'' (file_name r)" and "lookup_file w (file_name r) \<noteq> None"
    and "is_orphaned r"
proof -
  from assms have m: "r \<in> set (scan_sessions (analyzer_of j) w)" and o: "is_orphaned r"
    by (simp_all add: orphans_of_def)
  from scan_sessions_set [OF m] obtain n st where
    r: "r = analyze (analyzer_of j) w n st" "n \<in> set (glob_jsonl w)" "stat w n = Inr st"
    by blast
  from r(2) show "suffix ''.jsonl'' (file_name r)"
    by (simp add: r(1) analyze_fields glob_jsonl_def)
  from r(3) show "lookup_file w (file_name r) \<noteq> None"
    by (auto simp: r(1) analyze_fields stat_def split: if_splits option.splits)
  show "is_orphaned r" by (rule o)
qed

lemma scan_loop_names:
  "map file_name (scan_loop a w names) =
     filter (\<lambda>n. \<not> sublist ''.deleted.'' n \<and> (\<exists>st. stat w n = Inr st)) names"
  by (induction names) (auto simp: analyze_fields split: sum.splits)

lemma orphans_of_distinct:
  assumes "distinct (map fst (entries w))"
  shows "distinct (map file_name (orphans_of j w))"
proof -
  have "distinct (glob_jsonl w)"
    using assms by (simp add: glob_jsonl_def)
  then have "distinct (map file_name (scan_loop (analyzer_of j) w (glob_jsonl w)))"
    by (simp add: scan_loop_names)
  then have "distinct (map file_name (scan_sessions (analyzer_of j) w))"
    by (simp add: scan_sessions_def distinct_map)
  then show ?thesis
    unfolding orphans_of_def by (rule distinct_map_filter)
qed

lemma new_log_append: "log w' = log w @ evs \<Longrightarrow> new_log w w' = evs"
  by (simp add: new_log_def)

text \<open>What a run added to the log, case by case.\<close>

lemma run_summary:
  assumes "run j w = (j', w')"
  shows "(\<exists>evs. log w' = log w @ evs \<and> processed evs = [] \<and> deleted_log evs = [] \<and>
            j' = counted j w \<and> w'\<lparr>log := log w\<rparr> = w\<lparr>stdin := stdin w'\<rparr> \<and>
            (dry_run j \<longrightarrow> stdin w' = stdin w) \<and>
            (orphans_of j w = [] \<or> dry_run j \<or>
             \<not> fst (confirm_action (length (orphans_of j w)) w))) \<or>
         (\<exists>w1 w2 pre evs. \<not> dry_run j \<and> fst (confirm_action (length (orphans_of j w)) w) \<and>
            process_all (orphans_of j w) (counted j w) w1 = (j', w2) \<and>
            entries w1 = entries w \<and> same_env w w1 \<and>
            log w1 = log w @ pre \<and> processed pre = [] \<and> deleted_log pre = [] \<and>
            log w2 = log w1 @ evs \<and>
            w' = logging LogSummary w2)"
  using assms
proof (cases rule: run_cases)
  case nothing
  then show ?thesis
    by (intro disjI1 exI [of _ "[LogNothingToDo]"])
       (simp add: logging_def processed_def deleted_log_def List.map_filter_def)
next
  case dry
  let ?l = "map (\<lambda>s. LogOrphan (file_name s) (size_bytes s) (modified s) (reason s)) (orphans_of j w)"
  from dry show ?thesis
    by (intro disjI1 exI [of _ "?l @ [LogDryRun]"])
       (simp add: fold_log_orphan logging_def processed_append deleted_log_append
          processed_orphan_lines, simp add: processed_def deleted_log_def List.map_filter_def)
next
  case (cancelled w1)
  let ?l = "map (\<lambda>s. LogOrphan (file_name s) (size_bytes s) (modified s) (reason s)) (orphans_of j w)"
  let ?w0 = "fold log_orphan (orphans_of j w) w"
  from confirm_action_frame(4) [OF cancelled(3)] obtain c where
    c: "log w1 = log ?w0 @ c" "processed c = []" "deleted_log c = []" by blast
  have nf: "\<not> fst (confirm_action (length (orphans_of j w)) w)"
    using cancelled(3) confirm_action_after_listing [of "length (orphans_of j w)" "orphans_of j w" w]
    by simp
  have w1: "w1\<lparr>log := log w\<rparr> = w\<lparr>stdin := stdin w1\<rparr>"
    using cancelled(3)
    by (auto simp: confirm_action_def input_def fold_log_orphan logging_def
        split: if_splits list.splits)
  have "log w' = log w @ (?l @ c @ [LogCancelled])"
    using cancelled(5) c(1) by (simp add: logging_def fold_log_orphan)
  moreover have "processed (?l @ c @ [LogCancelled]) = []" "deleted_log (?l @ c @ [LogCancelled]) = []"
    using c(2,3)
    by (simp_all add: processed_append deleted_log_append processed_orphan_lines)
       (simp_all add: processed_def deleted_log_def List.map_filter_def)
  moreover have "w'\<lparr>log := log w\<rparr> = w\<lparr>stdin := stdin w'\<rparr>"
    using w1 cancelled(5) by (simp add: logging_def)
  ultimately show ?thesis
    using cancelled(2,4) nf by (intro disjI1 exI [of _ "?l @ c @ [LogCancelled]"]) simp
next
  case (processing w1 w2)
  let ?l = "map (\<lambda>s. LogOrphan (file_name s) (size_bytes s) (modified s) (reason s)) (orphans_of j w)"
  let ?w0 = "fold log_orphan (orphans_of j w) w"
  note cf = confirm_action_frame [OF processing(3)]
  from cf(4) obtain c where
    c: "log w1 = log ?w0 @ c" "processed c = []" "deleted_log c = []" by blast
  have ok: "fst (confirm_action (length (orphans_of j w)) w)"
    using processing(3) confirm_action_after_listing [of "length (orphans_of j w)" "orphans_of j w" w]
    by simp
  have e: "entries w1 = entries w" using cf(1) by (simp add: fold_log_orphan)
  have se: "same_env w w1" using cf(2) by (simp add: fold_log_orphan same_env_def)
  have l1: "log w1 = log w @ (?l @ c)" using c(1) by (simp add: fold_log_orphan)
  have p: "processed (?l @ c) = []" "deleted_log (?l @ c) = []"
    using c(2,3) by (simp_all add: processed_append deleted_log_append processed_orphan_lines)
  from process_all_processed [OF processing(4)] obtain evs where evs: "log w2 = log w1 @ evs"
    by blast
  show ?thesis
    using processing(2,4,5) ok e se l1 p evs by (intro disjI2) blast
qed

lemma run_outcomes:
  assumes "run j w = (j', w')"
  obtains (quiet) evs where "log w' = log w @ evs" "processed evs = []" "deleted_log evs = []"
      "j' = counted j w" "w'\<lparr>log := log w\<rparr> = w\<lparr>stdin := stdin w'\<rparr>"
      "dry_run j \<longrightarrow> stdin w' = stdin w"
      "orphans_of j w = [] \<or> dry_run j \<or> \<not> fst (confirm_action (length (orphans_of j w)) w)"
  | (worked) w1 w2 pre evs where "\<not> dry_run j"
      "fst (confirm_action (length (orphans_of j w)) w)"
      "process_all (orphans_of j w) (counted j w) w1 = (j', w2)"
      "entries w1 = entries w" "same_env w w1"
      "log w1 = log w @ pre" "processed pre = []" "deleted_log pre = []"
      "log w2 = log w1 @ evs" "w' = logging LogSummary w2"
proof -
  from run_summary [OF assms] consider
    (a) "\<exists>evs. log w' = log w @ evs \<and> processed evs = [] \<and> deleted_log evs = [] \<and>
            j' = counted j w \<and> w'\<lparr>log := log w\<rparr> = w\<lparr>stdin := stdin w'\<rparr> \<and>
            (dry_run j \<longrightarrow> stdin w' = stdin w) \<and>
            (orphans_of j w = [] \<or> dry_run j \<or>
             \<not> fst (confirm_action (length (orphans_of j w)) w))"
  | (b) "\<exists>w1 w2 pre evs. \<not> dry_run j \<and> fst (confirm_action (length (orphans_of j w)) w) \<and>
            process_all (orphans_of j w) (counted j w) w1 = (j', w2) \<and>
            entries w1 = entries w \<and> same_env w w1 \<and>
            log w1 = log w @ pre \<and> processed pre = [] \<and> deleted_log pre = [] \<and>
            log w2 = log w1 @ evs \<and>
            w' = logging LogSummary w2"
    by blast
  then show ?thesis
  proof cases
    case a
    then obtain evs where "log w' = log w @ evs" "processed evs = []" "deleted_log evs = []"
      "j' = counted j w" "w'\<lparr>log := log w\<rparr> = w\<lparr>stdin := stdin w'\<rparr>"
      "dry_run j \<longrightarrow> stdin w' = stdin w"
      "orphans_of j w = [] \<or> dry_run j \<or> \<not> fst (confirm_action (length (orphans_of j w)) w)"
      by blast
    then show ?thesis by (rule quiet)
  next
    case b
    then obtain w1 w2 pre evs where "\<not> dry_run j"
      "fst (confirm_action (length (orphans_of j w)) w)"
      "process_all (orphans_of j w) (counted j w) w1 = (j', w2)"
      "entries w1 = entries w" "same_env w w1"
      "log w1 = log w @ pre" "processed pre = []" "deleted_log pre = []"
      "log w2 = log w1 @ evs" "w' = logging LogSummary w2"
      by blast
    then show ?thesis by (rule worked)
  qed
qed

lemma sorted_orphans: "sorted (map modified (orphans_of j w))"
proof -
  have "sorted (map modified (scan_sessions (analyzer_of j) w))"
    by (simp add: scan_sessions_def)
  then show ?thesis
    unfolding orphans_of_def by (rule sorted_filter)
qed

text \<open>
  \<^bold>\<open>C4\<close>. A run in dry-run mode changes nothing but the log: the world after it, with
  the log of the world before, is the world before (no file deleted, no marker created,
  no archive record written, the console not read), and no outcome of a record is
  logged. The counters \<^verbatim>\<open>archived\<close>, \<^verbatim>\<open>deleted\<close>, \<^verbatim>\<open>failed\<close> and
  \<^verbatim>\<open>space_reclaimed_bytes\<close> are those of the janitor before the run: 0 for a janitor
  just constructed. This holds for every input, with or without orphaned records.
\<close>

theorem dry_run_is_read_only:
  assumes "dry_run j" and "run j w = (j', w')"
  shows "w'\<lparr>log := log w\<rparr> = w \<and>
         processed (new_log w w') = [] \<and> deleted_log (new_log w w') = [] \<and>
         archiver_of j' = archiver_of j \<and>
         archived (stats_of j') = archived (stats_of j) \<and>
         deleted (stats_of j') = deleted (stats_of j) \<and>
         failed (stats_of j') = failed (stats_of j) \<and>
         space_reclaimed_bytes (stats_of j') = space_reclaimed_bytes (stats_of j) \<and>
         (j = SwarmJanitor days True arch t \<longrightarrow>
            stats_of j' = \<lparr>scanned = length (scan_sessions (analyzer_of j) w),
                           orphaned = length (orphans_of j w),
                           archived = 0, deleted = 0, failed = 0, space_reclaimed_bytes = 0\<rparr>)"
proof -
  from assms(2) assms(1)
  obtain evs where evs: "log w' = log w @ evs" "processed evs = []" "deleted_log evs = []"
    and j': "j' = counted j w" and w': "w'\<lparr>log := log w\<rparr> = w\<lparr>stdin := stdin w'\<rparr>"
    and st: "stdin w' = stdin w"
    by (cases rule: run_outcomes) blast+
  have "w'\<lparr>log := log w\<rparr> = w" using w' st by simp
  moreover have "new_log w w' = evs" using evs(1) by (rule new_log_append)
  moreover have "j = SwarmJanitor days True arch t \<longrightarrow>
            stats_of j' = \<lparr>scanned = length (scan_sessions (analyzer_of j) w),
                           orphaned = length (orphans_of j w),
                           archived = 0, deleted = 0, failed = 0, space_reclaimed_bytes = 0\<rparr>"
    unfolding j' by (simp add: counted_def SwarmJanitor_def)
  ultimately show ?thesis
    using evs(2,3) by (simp add: j' counted_fields)
qed

text \<open>
  \<^bold>\<open>C9\<close>. \<^verbatim>\<open>scan_sessions\<close> returns its records in ascending order of the modification
  time, so the orphaned records are in that order too; and in a destructive, confirmed
  run the outcomes in the log (deleted, archive failed, failed to process) name the
  orphaned records one by one in exactly that order.
\<close>

theorem scan_sorted_and_processed_in_order:
  "sorted (map modified (scan_sessions a w)) \<and>
   sorted (map modified (orphans_of j w)) \<and>
   (run j w = (j', w') \<and> \<not> dry_run j \<and> fst (confirm_action (length (orphans_of j w)) w) \<longrightarrow>
      processed (new_log w w') = map file_name (orphans_of j w))"
proof (intro conjI impI)
  show "sorted (map modified (scan_sessions a w))"
    by (simp add: scan_sessions_def)
  show "sorted (map modified (orphans_of j w))"
    by (rule sorted_orphans)
  assume h: "run j w = (j', w') \<and> \<not> dry_run j \<and> fst (confirm_action (length (orphans_of j w)) w)"
  then have r: "run j w = (j', w')" by simp
  let ?G = "processed (new_log w w') = map file_name (orphans_of j w)"
  from r show ?G
  proof (cases rule: run_outcomes)
    case (quiet evs)
    with h show ?G by (simp add: new_log_append)
  next
    case (worked w1 w2 pre evs)
    note p = worked(3) and l = worked(6,7,9,10)
    from process_all_processed [OF p] l(3) have "processed evs = map file_name (orphans_of j w)"
      by auto
    moreover have "log w' = log w @ (pre @ evs @ [LogSummary])"
      using l by (simp add: logging_def)
    then have "new_log w w' = pre @ evs @ [LogSummary]" by (rule new_log_append)
    ultimately show ?G
      using l(2) by (simp add: processed_append processed_def [of "[LogSummary]"] List.map_filter_def)
  qed
qed

lemma run_reclaimed:
  assumes "distinct (map fst (entries w))" and "run j w = (j', w')"
  shows "space_reclaimed_bytes (stats_of j') =
           space_reclaimed_bytes (stats_of j) +
           sum_list (map (size_on_disk w) (deleted_log (new_log w w'))) \<and>
         deleted (stats_of j') = deleted (stats_of j) + length (deleted_log (new_log w w')) \<and>
         (\<forall>n \<in> set (deleted_log (new_log w w')).
            lookup_file w n \<noteq> None \<and> lookup_file w' n = None)"
  using assms(2)
proof (cases rule: run_outcomes)
  case (quiet evs)
  then show ?thesis by (simp add: new_log_append counted_fields)
next
  case (worked w1 w2 pre evs)
  note p = worked(3) and e = worked(4) and l = worked(6,8,9,10)
  have lk: "lookup_file w1 = lookup_file w" "size_on_disk w1 = size_on_disk w"
    using e by (simp_all add: lookup_file_def size_on_disk_def fun_eq_iff)
  have sfx: "\<forall>r \<in> set (orphans_of j w). suffix ''.jsonl'' (file_name r)"
    using orphans_of_facts(1) by blast
  from process_all_reclaimed [OF p orphans_of_distinct [OF assms(1)] sfx] l(3)
  have r: "space_reclaimed_bytes (stats_of j') =
             space_reclaimed_bytes (stats_of (counted j w)) +
             sum_list (map (size_on_disk w1) (deleted_log evs))"
    "deleted (stats_of j') = deleted (stats_of (counted j w)) + length (deleted_log evs)"
    "\<forall>n \<in> set (deleted_log evs). lookup_file w1 n \<noteq> None \<and> lookup_file w2 n = None"
    by auto
  have "log w' = log w @ (pre @ evs @ [LogSummary])"
    using l by (simp add: logging_def)
  then have "new_log w w' = pre @ evs @ [LogSummary]" by (rule new_log_append)
  then have d: "deleted_log (new_log w w') = deleted_log evs"
    using l(2) by (simp add: deleted_log_append deleted_log_def [of "[LogSummary]"] List.map_filter_def)
  show ?thesis
    unfolding d using r lk l(4) by (simp add: counted_fields logging_fields)
qed

text \<open>
  \<^bold>\<open>C6\<close>. For a run of a janitor just constructed, on a directory whose names are
  distinct: \<^verbatim>\<open>space_reclaimed_bytes\<close> is the sum, over the files that the run logged as
  deleted, of their sizes on disk before the run (the size that \<^verbatim>\<open>stat\<close> reads just
  before the removal is that size, the run touching no file before its turn);
  \<^verbatim>\<open>deleted\<close> is the number of these files; each of them was in the directory and is
  not in it afterwards. A file whose archive or deletion failed is not logged as deleted
  and adds nothing.
\<close>

theorem reclaimed_bytes_sum:
  assumes "distinct (map fst (entries w))"
    and "run (SwarmJanitor days dry arch t) w = (j', w')"
  shows "space_reclaimed_bytes (stats_of j') =
           sum_list (map (size_on_disk w) (deleted_log (new_log w w'))) \<and>
         deleted (stats_of j') = length (deleted_log (new_log w w')) \<and>
         (\<forall>n \<in> set (deleted_log (new_log w w')).
            lookup_file w n \<noteq> None \<and> lookup_file w' n = None)"
  using run_reclaimed [OF assms] by (simp add: SwarmJanitor_def)

text \<open>
  \<^bold>\<open>C3\<close>. Let archiving be enabled and let \<^verbatim>\<open>archive_session\<close> fail for the file of an
  orphaned record (its result depends only on the file and on what raises, not on the
  records processed before). Then after the run the file is in the directory as it was,
  the marker of the file has not been created, and, the run being destructive and
  confirmed, the \<^verbatim>\<open>failed\<close> counter has grown. In the step of that record the directory
  does not change and \<^verbatim>\<open>failed\<close> grows by exactly one.
\<close>

theorem archive_failure_keeps_file:
  assumes "distinct (map fst (entries w))"
    and "archive_enabled j"
    and "s \<in> set (orphans_of j w)"
    and "\<not> fst (archive_session ar (file_name s) w)"
    and "run j w = (j', w')"
  shows "lookup_file w (file_name s) \<noteq> None \<and>
         lookup_file w' (file_name s) = lookup_file w (file_name s) \<and>
         lookup_file w' (marker_name w (file_name s)) = lookup_file w (marker_name w (file_name s)) \<and>
         (\<not> dry_run j \<and> fst (confirm_action (length (orphans_of j w)) w) \<longrightarrow>
            failed (stats_of j) < failed (stats_of j')) \<and>
         entries (snd (process_session j s w)) = entries w \<and>
         stats_of (fst (process_session j s w)) = (stats_of j)\<lparr>failed := failed (stats_of j) + 1\<rparr>"
proof -
  have ex: "lookup_file w (file_name s) \<noteq> None"
    using orphans_of_facts(2) [OF assms(3)] .
  obtain j1 w1 where st: "process_session j s w = (j1, w1)"
    by (cases "process_session j s w") auto
  from process_session_archive_failed [OF st assms(2,4)]
  have step: "entries (snd (process_session j s w)) = entries w \<and>
         stats_of (fst (process_session j s w)) = (stats_of j)\<lparr>failed := failed (stats_of j) + 1\<rparr>"
    by (simp add: st)
  have main: "lookup_file w' (file_name s) = lookup_file w (file_name s) \<and>
         lookup_file w' (marker_name w (file_name s)) = lookup_file w (marker_name w (file_name s)) \<and>
         (\<not> dry_run j \<and> fst (confirm_action (length (orphans_of j w)) w) \<longrightarrow>
            failed (stats_of j) < failed (stats_of j'))" (is ?M)
    using assms(5)
  proof (cases rule: run_outcomes)
    case (quiet evs)
    note c = quiet(7)
    from quiet(5) have "entries (w'\<lparr>log := log w\<rparr>) = entries (w\<lparr>stdin := stdin w'\<rparr>)" by simp
    then have "lookup_file w' = lookup_file w"
      by (simp add: lookup_file_def fun_eq_iff)
    with c assms(3) show ?M by auto
  next
    case (worked w1 w2 pre evs)
    note p = worked(3) and e = worked(4) and se = worked(5) and w' = worked(10)
    have lk: "lookup_file w1 = lookup_file w"
      using e by (simp add: lookup_file_def fun_eq_iff)
    have nf: "\<not> fst (archive_session ar (file_name s) w1)"
      using archive_result_cong [OF se, of "file_name s" ar ar] lk assms(4) by simp
    have sfx: "\<forall>r \<in> set (orphans_of j w). suffix ''.jsonl'' (file_name r)"
      using orphans_of_facts(1) by blast
    have en: "archive_enabled (counted j w)"
      using assms(2) by (simp add: counted_fields)
    from process_all_archive_failed [OF p en orphans_of_distinct [OF assms(1)] sfx assms(3) nf]
    show ?M
      using lk same_env_marker [OF se] by (simp add: w' logging_fields counted_fields)
  qed
  from ex main step show ?thesis by simp
qed

theorem dry_run_is_read_only_witness:
  "orphans_of dry_janitor messy_world \<noteq> [] \<and>
   (snd (run dry_janitor messy_world))\<lparr>log := log messy_world\<rparr> = messy_world \<and>
   stats_of (fst (run dry_janitor messy_world)) =
     \<lparr>scanned = 4, orphaned = 4, archived = 0, deleted = 0, failed = 0,
      space_reclaimed_bytes = 0\<rparr>"
proof -
  have d: "dry_run dry_janitor" by code_simp
  have r: "run dry_janitor messy_world =
             (fst (run dry_janitor messy_world), snd (run dry_janitor messy_world))"
    by simp
  have n: "length (scan_sessions (analyzer_of dry_janitor) messy_world) = 4"
    "length (orphans_of dry_janitor messy_world) = 4"
    by code_simp+
  then have ne: "orphans_of dry_janitor messy_world \<noteq> []" by auto
  from dry_run_is_read_only [OF d r, of 3 True 1700000000000000] n ne
  show ?thesis by (simp add: dry_janitor_def)
qed

theorem scan_sorted_and_processed_in_order_witness:
  "map modified (orphans_of live_janitor messy_world) =
     [1698000000000000, 1699136000000000, 1699500000000000, 1699999000000000] \<and>
   processed (new_log messy_world (snd (run live_janitor messy_world))) =
     [''locked.jsonl'', ''abc.jsonl'', ''stuck.jsonl'', ''new.jsonl'']"
proof -
  have r: "run live_janitor messy_world =
             (fst (run live_janitor messy_world), snd (run live_janitor messy_world))"
    by simp
  have c: "\<not> dry_run live_janitor \<and>
           fst (confirm_action (length (orphans_of live_janitor messy_world)) messy_world)"
    by code_simp
  note h = conjI [OF r c]
  have m: "map modified (orphans_of live_janitor messy_world) =
     [1698000000000000, 1699136000000000, 1699500000000000, 1699999000000000]"
    "map file_name (orphans_of live_janitor messy_world) =
     [''locked.jsonl'', ''abc.jsonl'', ''stuck.jsonl'', ''new.jsonl'']"
    by code_simp+
  from scan_sorted_and_processed_in_order
         [of "analyzer_of live_janitor" messy_world live_janitor
             "fst (run live_janitor messy_world)" "snd (run live_janitor messy_world)"] h m
  show ?thesis by simp
qed

theorem reclaimed_bytes_sum_witness:
  "deleted_log (new_log messy_world (snd (run live_janitor messy_world))) =
     [''abc.jsonl'', ''new.jsonl''] \<and>
   size_on_disk messy_world ''abc.jsonl'' = 2 \<and> size_on_disk messy_world ''new.jsonl'' = 5 \<and>
   space_reclaimed_bytes (stats_of (fst (run live_janitor messy_world))) = 7 \<and>
   deleted (stats_of (fst (run live_janitor messy_world))) = 2 \<and>
   failed (stats_of (fst (run live_janitor messy_world))) = 2"
proof -
  have d: "distinct (map fst (entries messy_world))" by code_simp
  have r: "run (SwarmJanitor 3 False True 1700000000000000) messy_world =
             (fst (run live_janitor messy_world), snd (run live_janitor messy_world))"
    by (simp add: live_janitor_def)
  have l: "deleted_log (new_log messy_world (snd (run live_janitor messy_world))) =
     [''abc.jsonl'', ''new.jsonl'']"
    by code_simp
  have s: "size_on_disk messy_world ''abc.jsonl'' = 2" "size_on_disk messy_world ''new.jsonl'' = 5"
    by code_simp+
  have f: "failed (stats_of (fst (run live_janitor messy_world))) = 2"
    by code_simp
  from reclaimed_bytes_sum [OF d r] l s f
  show ?thesis by simp
qed

theorem archive_failure_keeps_file_witness:
  "\<not> fst (archive_session SuperMemoryArchiver ''locked.jsonl'' messy_world) \<and>
   lookup_file (snd (run live_janitor messy_world)) ''locked.jsonl'' =
     lookup_file messy_world ''locked.jsonl'' \<and>
   lookup_file messy_world ''locked.jsonl'' \<noteq> None \<and>
   lookup_file (snd (run live_janitor messy_world)) (marker_name messy_world ''locked.jsonl'') = None \<and>
   0 < failed (stats_of (fst (run live_janitor messy_world)))"
proof -
  have d: "distinct (map fst (entries messy_world))" by code_simp
  have e: "archive_enabled live_janitor" by code_simp
  have s: "locked_record \<in> set (orphans_of live_janitor messy_world)" by code_simp
  have a: "\<not> fst (archive_session SuperMemoryArchiver (file_name locked_record) messy_world)"
    by code_simp
  have r: "run live_janitor messy_world =
             (fst (run live_janitor messy_world), snd (run live_janitor messy_world))"
    by simp
  have c: "\<not> dry_run live_janitor \<and>
           fst (confirm_action (length (orphans_of live_janitor messy_world)) messy_world)"
    by code_simp
  have n: "file_name locked_record = ''locked.jsonl''"
    by (simp add: locked_record_def)
  have m: "lookup_file messy_world (marker_name messy_world ''locked.jsonl'') = None"
    by code_simp
  have z: "failed (stats_of live_janitor) = 0" by code_simp
  from archive_failure_keeps_file [OF d e s a r] c a
  show ?thesis by (simp add: n m z)
qed

section \<open>The legacy script against the orchestrator\<close>


































end
